theory Spec2Isabelle
  imports Main "HOL-Library.Word"
begin

section \<open>Three-dimensional label volumes\<close>

text \<open>
  The conversion script works on numpy arrays holding segmentation label volumes. An
  array is its shape together with its element buffer in C (row-major) order. The volumes
  of this development are three-dimensional: a shape is a triple of axis lengths and a
  voxel a triple of coordinates.
\<close>

type_synonym shape3 = "nat \<times> nat \<times> nat"
type_synonym voxel = "nat \<times> nat \<times> nat"

datatype 'a ndarray = NDArray (shape: shape3) (elems: "'a list")

fun size3 :: "shape3 \<Rightarrow> nat" where
  "size3 (nx, ny, nz) = nx * ny * nz"

text \<open>An array is well formed when its buffer has one element for every voxel of its shape.\<close>

definition wf_array :: "'a ndarray \<Rightarrow> bool" where
  "wf_array a = (length (elems a) = size3 (shape a))"

fun in_range :: "shape3 \<Rightarrow> voxel \<Rightarrow> bool" where
  "in_range (nx, ny, nz) (i, j, k) = (i < nx \<and> j < ny \<and> k < nz)"

text \<open>Position of a voxel in the row-major buffer, and the voxel at a position.\<close>

fun ravel :: "shape3 \<Rightarrow> voxel \<Rightarrow> nat" where
  "ravel (nx, ny, nz) (i, j, k) = (i * ny + j) * nz + k"

fun unravel :: "shape3 \<Rightarrow> nat \<Rightarrow> voxel" where
  "unravel (nx, ny, nz) n = (n div (ny * nz), (n div nz) mod ny, n mod nz)"

text \<open>All voxels of a shape, in row-major order.\<close>

definition indices :: "shape3 \<Rightarrow> voxel list" where
  "indices s = map (unravel s) [0..<size3 s]"

definition at :: "'a ndarray \<Rightarrow> voxel \<Rightarrow> 'a" where
  "at a v = elems a ! ravel (shape a) v"

definition tabulate :: "shape3 \<Rightarrow> (voxel \<Rightarrow> 'a) \<Rightarrow> 'a ndarray" where
  "tabulate s f = NDArray s (map f (indices s))"

text \<open>An elementwise operation on one array, such as \<open>a == 1\<close> or \<open>np.where(c, 1, 0)\<close>.\<close>

definition map_nd :: "('a \<Rightarrow> 'b) \<Rightarrow> 'a ndarray \<Rightarrow> 'b ndarray" where
  "map_nd f a = NDArray (shape a) (map f (elems a))"

subsection \<open>Broadcasting\<close>

text \<open>
  An elementwise operation on two arrays broadcasts them: on every axis the two lengths
  must be equal or one of them must be 1, and an axis of length 1 is read at index 0
  throughout. Otherwise numpy raises \<open>ValueError\<close> (operands could not be broadcast
  together).
\<close>

datatype error = ValueError

definition broadcast_dim :: "nat \<Rightarrow> nat \<Rightarrow> nat option" where
  "broadcast_dim m n =
     (if m = n then Some m else if m = 1 then Some n else if n = 1 then Some m else None)"

fun broadcast_shapes :: "shape3 \<Rightarrow> shape3 \<Rightarrow> shape3 option" where
  "broadcast_shapes (ax, ay, az) (bx, by, bz) =
     (case (broadcast_dim ax bx, broadcast_dim ay by, broadcast_dim az bz) of
        (Some x, Some y, Some z) \<Rightarrow> Some (x, y, z)
      | _ \<Rightarrow> None)"

fun broadcast_index :: "shape3 \<Rightarrow> voxel \<Rightarrow> voxel" where
  "broadcast_index (nx, ny, nz) (i, j, k) =
     (if nx = 1 then 0 else i, if ny = 1 then 0 else j, if nz = 1 then 0 else k)"

definition broadcast2 ::
  "('a \<Rightarrow> 'b \<Rightarrow> 'c) \<Rightarrow> 'a ndarray \<Rightarrow> 'b ndarray \<Rightarrow> error + 'c ndarray" where
  "broadcast2 f a b =
     (case broadcast_shapes (shape a) (shape b) of
        None \<Rightarrow> Inl ValueError
      | Some s \<Rightarrow>
          Inr (tabulate s (\<lambda>v. f (at a (broadcast_index (shape a) v))
                                  (at b (broadcast_index (shape b) v)))))"

text \<open>Sequencing of computations that may raise.\<close>

definition and_then :: "error + 'a \<Rightarrow> ('a \<Rightarrow> error + 'b) \<Rightarrow> error + 'b" where
  "and_then r f = (case r of Inl e \<Rightarrow> Inl e | Inr x \<Rightarrow> f x)"

section \<open>Face adjacency and iterated dilation\<close>

text \<open>
  Both scipy routines the script calls, \<open>ndimage.binary_fill_holes\<close> and
  \<open>ndimage.label\<close>, are called with their default structuring element, which in three
  dimensions connects a voxel to its six face neighbours.
\<close>

fun nbrs6 :: "shape3 \<Rightarrow> voxel \<Rightarrow> voxel list" where
  "nbrs6 s (i, j, k) =
     filter (in_range s)
       ((if 0 < i then [(i - 1, j, k)] else []) @ [(i + 1, j, k)] @
        (if 0 < j then [(i, j - 1, k)] else []) @ [(i, j + 1, k)] @
        (if 0 < k then [(i, j, k - 1)] else []) @ [(i, j, k + 1)])"

text \<open>A voxel on an outer face of the volume has a face neighbour outside the array.\<close>

fun on_border :: "shape3 \<Rightarrow> voxel \<Rightarrow> bool" where
  "on_border (nx, ny, nz) (i, j, k) =
     (i = 0 \<or> i + 1 = nx \<or> j = 0 \<or> j + 1 = ny \<or> k = 0 \<or> k + 1 = nz)"

text \<open>
  One pass of \<open>binary_dilation\<close> restricted to a mask: the voxels of the mask that are
  not yet set and have a set face neighbour. With \<open>border_value = 1\<close> the outside of the
  array counts as set.
\<close>

definition dilate_new ::
  "shape3 \<Rightarrow> (voxel \<Rightarrow> bool) \<Rightarrow> bool \<Rightarrow> voxel list \<Rightarrow> voxel list" where
  "dilate_new s msk border_value cur =
     filter (\<lambda>v. msk v \<and> v \<notin> set cur \<and>
                 ((\<exists>u \<in> set (nbrs6 s v). u \<in> set cur) \<or> (border_value \<and> on_border s v)))
       (indices s)"

text \<open>
  \<open>binary_dilation(..., iterations=-1, mask=mask)\<close>: the pass is repeated until it
  sets no further voxel. The argument \<open>cur\<close> lists the voxels set so far.
\<close>

function binary_dilation ::
  "shape3 \<Rightarrow> (voxel \<Rightarrow> bool) \<Rightarrow> bool \<Rightarrow> voxel list \<Rightarrow> voxel list" where
  "binary_dilation s msk border_value cur =
     (let new = dilate_new s msk border_value cur
      in if new = [] then cur else binary_dilation s msk border_value (cur @ new))"
  by pat_completeness auto
termination
proof (relation "measure (\<lambda>(s, msk, b, cur). card (set (indices s) - set cur))")
  show "wf (measure (\<lambda>(s, msk, b, cur). card (set (indices s) - set cur)))"
    by simp
next
  fix s :: shape3 and msk :: "voxel \<Rightarrow> bool" and border_value :: bool
    and cur new :: "voxel list"
  assume new: "new = dilate_new s msk border_value cur" and ne: "new \<noteq> []"
  from ne obtain v where v: "v \<in> set new"
    by (cases new) auto
  from v new have "v \<in> set (indices s)" "v \<notin> set cur"
    by (simp_all add: dilate_new_def)
  then have "set (indices s) - set (cur @ new) \<subset> set (indices s) - set cur"
    using v by auto
  then have "card (set (indices s) - set (cur @ new)) < card (set (indices s) - set cur)"
    by (intro psubset_card_mono) simp_all
  then show "((s, msk, border_value, cur @ new), (s, msk, border_value, cur))
      \<in> measure (\<lambda>(s, msk, b, cur). card (set (indices s) - set cur))"
    by simp
qed

declare binary_dilation.simps [simp del]

section \<open>The scipy routines\<close>

text \<open>
  \<open>ndimage.binary_fill_holes(input)\<close> dilates an empty array inside the complement of
  the input, with the outside of the array counting as set, until nothing changes, and
  returns the complement of what was reached. Nonzero input elements are foreground.
\<close>

definition binary_fill_holes :: "int ndarray \<Rightarrow> bool ndarray" where
  "binary_fill_holes input =
     (let s = shape input;
          output = binary_dilation s (\<lambda>v. at input v = 0) True []
      in tabulate s (\<lambda>v. v \<notin> set output))"

text \<open>
  \<open>ndimage.label(input)\<close> numbers the connected groups of nonzero voxels 1, 2, ... in
  the row-major order of their first voxels; zero voxels get 0. The scan keeps the
  components found so far; a nonzero voxel in none of them starts the next one, which is
  everything that dilation inside the foreground reaches from it.
\<close>

fun label_scan ::
  "shape3 \<Rightarrow> (voxel \<Rightarrow> bool) \<Rightarrow> voxel list \<Rightarrow> voxel list list \<Rightarrow> voxel list list" where
  "label_scan s fg [] comps = comps"
| "label_scan s fg (v # vs) comps =
     (if fg v \<and> \<not> (\<exists>c \<in> set comps. v \<in> set c)
      then label_scan s fg vs (comps @ [binary_dilation s fg False [v]])
      else label_scan s fg vs comps)"

fun component_id :: "nat \<Rightarrow> voxel list list \<Rightarrow> voxel \<Rightarrow> nat" where
  "component_id n [] v = 0"
| "component_id n (c # cs) v = (if v \<in> set c then n else component_id (Suc n) cs v)"

definition label :: "int ndarray \<Rightarrow> nat ndarray \<times> nat" where
  "label input =
     (let s = shape input;
          comps = label_scan s (\<lambda>v. at input v \<noteq> 0) (indices s) []
      in (tabulate s (component_id 1 comps), length comps))"

section \<open>The numpy routines on flat data\<close>

text \<open>
  \<open>np.unique(a, return_counts=True)\<close>: the sorted distinct elements of the flattened
  array, and how often each occurs.
\<close>

definition unique_counts :: "nat ndarray \<Rightarrow> nat list \<times> nat list" where
  "unique_counts a =
     (let lbls = sort (remdups (elems a)) in (lbls, map (count_list (elems a)) lbls))"

text \<open>
  \<open>lbls[(n > threshold) & (lbls > 0)]\<close>: selection from a one-dimensional array by a
  boolean array of the same length.
\<close>

definition select_above :: "nat list \<Rightarrow> nat list \<Rightarrow> int \<Rightarrow> nat list" where
  "select_above lbls n threshold =
     map fst (filter (\<lambda>(l, c). int c > threshold \<and> l > 0) (zip lbls n))"

definition isin :: "nat ndarray \<Rightarrow> nat list \<Rightarrow> bool ndarray" where
  "isin a test = map_nd (\<lambda>x. x \<in> set test) a"

section \<open>The conversion\<close>

text \<open>
  \<open>convert_data_brats2021_to_twolabel\<close> is one function of four consecutive parts, each
  given a definition here, named after the pipeline stage it carries out (mask combiner,
  enclosure filler, component size filter, label merger). The label arrays are integer
  arrays; a mask is an integer array of zeros and ones, as \<open>np.where(c, 1, 0)\<close> builds it.

  Conversion steps 2 and 3 (the assignment to \<open>NE\<close> before the \<open>if\<close>):
  \<open>NE = np.where(((d_hdglio != 0) & (d_brats == 1)) | (d_brats == 2), 1, 0)\<close>.
\<close>

definition mask_combiner :: "int ndarray \<Rightarrow> int ndarray \<Rightarrow> error + int ndarray" where
  "mask_combiner d_brats d_hdglio =
     and_then (broadcast2 (\<and>) (map_nd (\<lambda>x. x \<noteq> 0) d_hdglio) (map_nd (\<lambda>x. x = 1) d_brats))
       (\<lambda>inside. and_then (broadcast2 (\<or>) inside (map_nd (\<lambda>x. x = 2) d_brats))
       (\<lambda>cond. Inr (map_nd (\<lambda>c. if c then 1 else 0) cond)))"

text \<open>
  Conversion step 4 (the body of \<open>if at_fill\<close>): \<open>AT\<close>, \<open>filled_AT\<close>,
  \<open>enclosed_NCR\<close> and the update of \<open>NE\<close>. Comparing the boolean array \<open>filled_AT\<close>
  with 1 compares \<open>True\<close> with 1.
\<close>

definition enclosure_filler :: "int ndarray \<Rightarrow> int ndarray \<Rightarrow> error + int ndarray" where
  "enclosure_filler d_brats NE =
     (let AT = map_nd (\<lambda>x. if x = 4 then 1 else (0::int)) d_brats;
          filled_AT = binary_fill_holes AT
      in and_then (broadcast2 (\<and>) (map_nd (\<lambda>f. (if f then 1 else (0::int)) = 1) filled_AT)
                                   (map_nd (\<lambda>x. x = 0) AT))
           (\<lambda>cond.
              let enclosed_NCR = map_nd (\<lambda>c. if c then 1 else (0::int)) cond
              in broadcast2 (\<lambda>e x. if e then 0 else x)
                   (map_nd (\<lambda>x. x = 1) enclosed_NCR) NE))"

text \<open>
  Conversion steps 5 and 6: \<open>labelled_NE\<close>, \<open>lbls\<close>, \<open>n\<close>, \<open>lbls_above_thr\<close> and
  \<open>NE_out\<close>.
\<close>

definition component_size_filter ::
  "int ndarray \<Rightarrow> int ndarray \<Rightarrow> int \<Rightarrow> error + int ndarray" where
  "component_size_filter NE d_brats cluster_size_threshold =
     (let threshold = cluster_size_threshold;
          (labelled_NE, nlabels) = label NE;
          (lbls, n) = unique_counts labelled_NE;
          lbls_above_thr = select_above lbls n threshold
      in and_then (broadcast2 (\<or>) (isin labelled_NE lbls_above_thr)
                                   (map_nd (\<lambda>x. x = 2) d_brats))
           (\<lambda>cond. Inr (map_nd (\<lambda>c. if c then 1 else 0) cond)))"

text \<open>Conversion step 7: \<open>d_out = np.where(d_brats == 4, 2, NE_out)\<close>.\<close>

definition label_merger :: "int ndarray \<Rightarrow> int ndarray \<Rightarrow> error + int ndarray" where
  "label_merger d_brats NE_out =
     broadcast2 (\<lambda>c x. if c then 2 else x) (map_nd (\<lambda>x. x = 4) d_brats) NE_out"

definition convert_data_brats2021_to_twolabel ::
  "int ndarray \<Rightarrow> int ndarray \<Rightarrow> int \<Rightarrow> bool \<Rightarrow> error + int ndarray" where
  "convert_data_brats2021_to_twolabel d_brats d_hdglio cluster_size_threshold at_fill =
     and_then (mask_combiner d_brats d_hdglio)
       (\<lambda>NE. and_then (if at_fill then enclosure_filler d_brats NE else Inr NE)
       (\<lambda>NE. and_then (component_size_filter NE d_brats cluster_size_threshold)
       (\<lambda>NE_out. label_merger d_brats NE_out)))"

text \<open>
  The value of \<open>NE\<close> when conversion step 5 begins, and the value of \<open>NE_out\<close>, as
  functions of the arguments of \<open>convert_data_brats2021_to_twolabel\<close>.
\<close>

definition NE_before_filter :: "int ndarray \<Rightarrow> int ndarray \<Rightarrow> bool \<Rightarrow> error + int ndarray" where
  "NE_before_filter d_brats d_hdglio at_fill =
     and_then (mask_combiner d_brats d_hdglio)
       (\<lambda>NE. if at_fill then enclosure_filler d_brats NE else Inr NE)"

definition NE_out_value ::
  "int ndarray \<Rightarrow> int ndarray \<Rightarrow> int \<Rightarrow> bool \<Rightarrow> error + int ndarray" where
  "NE_out_value d_brats d_hdglio cluster_size_threshold at_fill =
     and_then (NE_before_filter d_brats d_hdglio at_fill)
       (\<lambda>NE. component_size_filter NE d_brats cluster_size_threshold)"

text \<open>
  \<open>convert_file_brats2021_to_twolabel\<close>, between reading and writing: \<open>read_nifti\<close>
  hands over both volumes as \<open>uint8\<close> arrays, and \<open>write_nifti\<close> casts the result to
  \<open>uint8\<close>. The call of the conversion passes \<open>at_fill=True\<close>.
\<close>

definition convert_file_brats2021_to_twolabel ::
  "8 word ndarray \<Rightarrow> 8 word ndarray \<Rightarrow> int \<Rightarrow> bool \<Rightarrow> error + 8 word ndarray" where
  "convert_file_brats2021_to_twolabel d_brats d_hdglio cluster_size_threshold at_fill =
     and_then (convert_data_brats2021_to_twolabel (map_nd uint d_brats) (map_nd uint d_hdglio)
                 cluster_size_threshold True)
       (\<lambda>d_converted. Inr (map_nd word_of_int d_converted))"

text \<open>
  The command line: \<open>--at_fill\<close> is declared with \<open>type=bool\<close>, so a given text is
  converted by Python's \<open>bool\<close>, which is true of every string but the empty one; without
  the option the default \<open>True\<close> applies. \<open>--cluster_size_threshold\<close> has
  \<open>type=int\<close> and default 50.
\<close>

definition py_bool :: "string \<Rightarrow> bool" where
  "py_bool s = (length s \<noteq> 0)"

definition parse_at_fill :: "string option \<Rightarrow> bool" where
  "parse_at_fill arg = (case arg of None \<Rightarrow> True | Some s \<Rightarrow> py_bool s)"

definition parse_cluster_size_threshold :: "int option \<Rightarrow> int" where
  "parse_cluster_size_threshold arg = (case arg of None \<Rightarrow> 50 | Some t \<Rightarrow> t)"

definition main ::
  "8 word ndarray \<Rightarrow> 8 word ndarray \<Rightarrow> int option \<Rightarrow> string option \<Rightarrow> error + 8 word ndarray" where
  "main d_brats d_hdglio cluster_size_threshold_arg at_fill_arg =
     convert_file_brats2021_to_twolabel d_brats d_hdglio
       (parse_cluster_size_threshold cluster_size_threshold_arg) (parse_at_fill at_fill_arg)"

section \<open>Notions of the specification\<close>

text \<open>
  Two voxels are face adjacent when they differ by exactly one unit along exactly one
  axis.
\<close>

fun adj6 :: "voxel \<Rightarrow> voxel \<Rightarrow> bool" where
  "adj6 (i, j, k) (i', j', k') =
     (((i = i' + 1 \<or> i' = i + 1) \<and> j = j' \<and> k = k') \<or>
      (i = i' \<and> (j = j' + 1 \<or> j' = j + 1) \<and> k = k') \<or>
      (i = i' \<and> j = j' \<and> (k = k' + 1 \<or> k' = k + 1)))"

text \<open>
  A voxel that satisfies \<open>bg\<close> is reachable from the outer boundary when a chain of
  face-adjacent voxels of the volume, all satisfying \<open>bg\<close>, leads to it from a voxel on
  an outer face.
\<close>

inductive reach_from_border :: "shape3 \<Rightarrow> (voxel \<Rightarrow> bool) \<Rightarrow> voxel \<Rightarrow> bool"
  for s :: shape3 and bg :: "voxel \<Rightarrow> bool" where
  rb_start: "in_range s v \<Longrightarrow> on_border s v \<Longrightarrow> bg v \<Longrightarrow> reach_from_border s bg v"
| rb_step: "reach_from_border s bg u \<Longrightarrow> adj6 u v \<Longrightarrow> in_range s v \<Longrightarrow> bg v
            \<Longrightarrow> reach_from_border s bg v"

text \<open>
  Two voxels satisfying \<open>fg\<close> are connected when a chain of face-adjacent voxels of the
  volume, all satisfying \<open>fg\<close>, leads from one to the other; the component of a voxel
  is the set of voxels connected to it.
\<close>

inductive connected6 :: "shape3 \<Rightarrow> (voxel \<Rightarrow> bool) \<Rightarrow> voxel \<Rightarrow> voxel \<Rightarrow> bool"
  for s :: shape3 and fg :: "voxel \<Rightarrow> bool" and u :: voxel where
  cn_refl: "in_range s u \<Longrightarrow> fg u \<Longrightarrow> connected6 s fg u u"
| cn_step: "connected6 s fg u w \<Longrightarrow> adj6 w v \<Longrightarrow> in_range s v \<Longrightarrow> fg v
            \<Longrightarrow> connected6 s fg u v"

definition component :: "shape3 \<Rightarrow> (voxel \<Rightarrow> bool) \<Rightarrow> voxel \<Rightarrow> voxel set" where
  "component s fg v = {u. connected6 s fg v u}"

text \<open>
  What iterated dilation reaches: the start voxels, with \<open>border_value\<close> the voxels of
  the mask on an outer face, and every voxel of the mask next to a reached voxel of the
  volume.
\<close>

inductive dilation_reach ::
  "shape3 \<Rightarrow> (voxel \<Rightarrow> bool) \<Rightarrow> bool \<Rightarrow> voxel set \<Rightarrow> voxel \<Rightarrow> bool"
  for s :: shape3 and msk :: "voxel \<Rightarrow> bool" and border_value :: bool and init :: "voxel set" where
  dr_init: "v \<in> init \<Longrightarrow> dilation_reach s msk border_value init v"
| dr_border: "border_value \<Longrightarrow> in_range s v \<Longrightarrow> on_border s v \<Longrightarrow> msk v
              \<Longrightarrow> dilation_reach s msk border_value init v"
| dr_step: "dilation_reach s msk border_value init u \<Longrightarrow> in_range s u \<Longrightarrow> adj6 u v
            \<Longrightarrow> in_range s v \<Longrightarrow> msk v \<Longrightarrow> dilation_reach s msk border_value init v"

text \<open>The array built from a nested list literal, as \<open>np.array\<close> builds it.\<close>

definition array3 :: "'a list list list \<Rightarrow> 'a ndarray" where
  "array3 xsss =
     NDArray (length xsss, length (hd xsss), length (hd (hd xsss))) (concat (concat xsss))"

text \<open>The element of a result at a voxel, when there is a result.\<close>

definition result_at :: "error + 'a ndarray \<Rightarrow> voxel \<Rightarrow> 'a option" where
  "result_at r v = (case r of Inl e \<Rightarrow> None | Inr a \<Rightarrow> Some (at a v))"

section \<open>Example volumes\<close>

text \<open>
  A 3 by 3 by 3 primary volume in which six enhancing-tissue voxels (label 4) surround one
  necrosis voxel (label 1) at the centre, and an auxiliary volume that is nonzero
  everywhere.
\<close>

definition shell_brats :: "int ndarray" where
  "shell_brats = array3
     [[[0, 0, 0], [0, 4, 0], [0, 0, 0]],
      [[0, 4, 0], [4, 1, 4], [0, 4, 0]],
      [[0, 0, 0], [0, 4, 0], [0, 0, 0]]]"

definition shell_hdglio :: "int ndarray" where
  "shell_hdglio = NDArray (3, 3, 3) (replicate 27 1)"

section \<open>Indexing and elementwise operations\<close>

lemma ravel_less: "in_range s v \<Longrightarrow> ravel s v < size3 s"
proof -
  obtain nx ny nz where s: "s = (nx, ny, nz)" by (cases s) auto
  obtain i j k where v: "v = (i, j, k)" by (cases v) auto
  assume "in_range s v"
  then have r: "i < nx" "j < ny" "k < nz" by (simp_all add: s v)
  have "i * ny + j < nx * ny"
  proof -
    have "i * ny + j < i * ny + ny" using r by simp
    also have "\<dots> = (Suc i) * ny" by simp
    also have "\<dots> \<le> nx * ny" using r by (intro mult_le_mono1) simp
    finally show ?thesis .
  qed
  then have "(i * ny + j) * nz + k < (i * ny + j) * nz + nz" using r by simp
  also have "\<dots> = Suc (i * ny + j) * nz" by simp
  also have "\<dots> \<le> (nx * ny) * nz" using \<open>i * ny + j < nx * ny\<close> by (intro mult_le_mono1) simp
  finally show ?thesis by (simp add: s v)
qed

lemma unravel_ravel: "in_range s v \<Longrightarrow> unravel s (ravel s v) = v"
proof -
  obtain nx ny nz where s: "s = (nx, ny, nz)" by (cases s) auto
  obtain i j k where v: "v = (i, j, k)" by (cases v) auto
  assume "in_range s v"
  then have r: "i < nx" "j < ny" "k < nz" by (simp_all add: s v)
  have a: "((i * ny + j) * nz + k) div nz = i * ny + j" using r by simp
  have b: "((i * ny + j) * nz + k) mod nz = k" using r by simp
  have c: "((i * ny + j) * nz + k) div (ny * nz) = i"
  proof -
    have "((i * ny + j) * nz + k) div (ny * nz) = (((i * ny + j) * nz + k) div nz) div ny"
      by (metis div_mult2_eq mult.commute)
    then show ?thesis using a r by simp
  qed
  show ?thesis using r by (simp add: s v a b c)
qed

lemma unravel_in_range: "n < size3 s \<Longrightarrow> in_range s (unravel s n)"
proof -
  obtain nx ny nz where s: "s = (nx, ny, nz)" by (cases s) auto
  assume "n < size3 s"
  then have n: "n < nx * (ny * nz)" by (simp add: s mult.assoc)
  then have pos: "0 < ny" "0 < nz" by (cases ny; cases nz; simp)+
  have "n div (ny * nz) < nx" using n pos by (simp add: less_mult_imp_div_less mult.commute)
  then show ?thesis using pos by (simp add: s)
qed

lemma ravel_unravel: "n < size3 s \<Longrightarrow> ravel s (unravel s n) = n"
proof -
  obtain nx ny nz where s: "s = (nx, ny, nz)" by (cases s) auto
  have "n div (ny * nz) * ny + n div nz mod ny = n div nz"
  proof -
    have "n div (ny * nz) = (n div nz) div ny" by (metis div_mult2_eq mult.commute)
    then show ?thesis by simp
  qed
  then show ?thesis by (simp add: s)
qed

lemma length_indices [simp]: "length (indices s) = size3 s"
  by (simp add: indices_def)

lemma set_indices: "set (indices s) = {v. in_range s v}"
proof (intro set_eqI iffI)
  fix v assume "v \<in> set (indices s)"
  then show "v \<in> {v. in_range s v}" by (auto simp: indices_def unravel_in_range)
next
  fix v assume "v \<in> {v. in_range s v}"
  then have v: "in_range s v" by simp
  then have "unravel s (ravel s v) = v" "ravel s v < size3 s"
    by (simp_all add: unravel_ravel ravel_less)
  then show "v \<in> set (indices s)" unfolding indices_def by (metis atLeast0LessThan imageI lessThan_iff set_map set_upt)
qed

lemma distinct_indices: "distinct (indices s)"
  unfolding indices_def distinct_map
proof (intro conjI inj_onI)
  show "distinct [0..<size3 s]" by simp
next
  fix m n assume "m \<in> set [0..<size3 s]" "n \<in> set [0..<size3 s]" "unravel s m = unravel s n"
  then show "m = n" by (metis atLeastLessThan_iff ravel_unravel set_upt)
qed

lemma indices_nth: "in_range s v \<Longrightarrow> indices s ! ravel s v = v"
  by (simp add: indices_def ravel_less unravel_ravel)

lemma shape_tabulate [simp]: "shape (tabulate s f) = s"
  by (simp add: tabulate_def)

lemma wf_tabulate [simp]: "wf_array (tabulate s f)"
  by (simp add: tabulate_def wf_array_def)

lemma at_tabulate: "in_range s v \<Longrightarrow> at (tabulate s f) v = f v"
  by (simp add: at_def tabulate_def ravel_less indices_nth)

lemma shape_map_nd [simp]: "shape (map_nd f a) = shape a"
  by (simp add: map_nd_def)

lemma wf_map_nd [simp]: "wf_array (map_nd f a) = wf_array a"
  by (simp add: map_nd_def wf_array_def)

lemma at_map_nd: "wf_array a \<Longrightarrow> in_range (shape a) v \<Longrightarrow> at (map_nd f a) v = f (at a v)"
  by (simp add: at_def map_nd_def wf_array_def ravel_less)

lemma tabulate_at: "wf_array a \<Longrightarrow> tabulate (shape a) (at a) = a"
proof -
  assume wf: "wf_array a"
  have "map (at a) (indices (shape a)) = elems a"
  proof (rule nth_equalityI)
    show "length (map (at a) (indices (shape a))) = length (elems a)"
      using wf by (simp add: wf_array_def)
  next
    fix n assume "n < length (map (at a) (indices (shape a)))"
    then have n: "n < size3 (shape a)" by simp
    then show "map (at a) (indices (shape a)) ! n = elems a ! n"
      by (simp add: indices_def at_def ravel_unravel)
  qed
  then show ?thesis by (cases a) (simp add: tabulate_def)
qed

lemma tabulate_cong: "(\<And>v. in_range s v \<Longrightarrow> f v = g v) \<Longrightarrow> tabulate s f = tabulate s g"
  by (simp add: tabulate_def set_indices)

lemma broadcast_dim_same [simp]: "broadcast_dim n n = Some n"
  by (simp add: broadcast_dim_def)

lemma broadcast_shapes_same [simp]: "broadcast_shapes s s = Some s"
  by (cases s) simp

lemma broadcast_index_same: "in_range s v \<Longrightarrow> broadcast_index s v = v"
  by (cases s; cases v) auto

lemma broadcast2_same:
  "shape a = shape b \<Longrightarrow> broadcast2 f a b = Inr (tabulate (shape a) (\<lambda>v. f (at a v) (at b v)))"
  by (auto simp: broadcast2_def broadcast_index_same intro!: tabulate_cong)

lemma elems_tabulate: "elems (tabulate s f) = map f (indices s)"
  by (simp add: tabulate_def)

section \<open>Iterated dilation computes reachability\<close>

lemma pred_eq_iff: "(0 < (i::nat) \<and> i' = i - 1) = (i = i' + 1)"
  by arith

lemma nbrs6_iff: "u \<in> set (nbrs6 s v) \<longleftrightarrow> adj6 u v \<and> in_range s u"
proof -
  obtain i j k where v: "v = (i, j, k)" by (cases v) auto
  obtain i' j' k' where u: "u = (i', j', k')" by (cases u) auto
  have "u \<in> set (nbrs6 s v) \<longleftrightarrow> in_range s u \<and>
     ((0 < i \<and> i' = i - 1) \<and> j' = j \<and> k' = k \<or> i' = i + 1 \<and> j' = j \<and> k' = k \<or>
      i' = i \<and> (0 < j \<and> j' = j - 1) \<and> k' = k \<or> i' = i \<and> j' = j + 1 \<and> k' = k \<or>
      i' = i \<and> j' = j \<and> (0 < k \<and> k' = k - 1) \<or> i' = i \<and> j' = j \<and> k' = k + 1)"
    unfolding u v nbrs6.simps set_filter set_append by (simp del: in_range.simps) blast
  also have "\<dots> \<longleftrightarrow> adj6 u v \<and> in_range s u"
    unfolding u v adj6.simps pred_eq_iff by blast
  finally show ?thesis .
qed

lemma adj6_sym: "adj6 u v \<Longrightarrow> adj6 v u"
  by (cases u; cases v) auto

lemma dilation_reach_mono:
  "dilation_reach s msk b A v \<Longrightarrow> A \<subseteq> B \<Longrightarrow> dilation_reach s msk b B v"
  by (induction rule: dilation_reach.induct) (auto intro: dilation_reach.intros)

lemma dilate_new_reach:
  assumes "v \<in> set (dilate_new s msk b cur)"
  shows "dilation_reach s msk b (set cur) v"
proof -
  from assms have v: "in_range s v" "msk v"
    and c: "(\<exists>u \<in> set (nbrs6 s v). u \<in> set cur) \<or> (b \<and> on_border s v)"
    by (auto simp: dilate_new_def set_indices)
  from c show ?thesis
  proof
    assume "\<exists>u \<in> set (nbrs6 s v). u \<in> set cur"
    then obtain u where u: "u \<in> set cur" "adj6 u v" "in_range s u"
      by (auto simp: nbrs6_iff)
    then show ?thesis using v by (auto intro: dilation_reach.intros)
  next
    assume "b \<and> on_border s v"
    then show ?thesis using v by (auto intro: dilation_reach.intros)
  qed
qed

lemma dilation_reach_absorb:
  assumes "dilation_reach s msk b (A \<union> N) v" and "\<And>w. w \<in> N \<Longrightarrow> dilation_reach s msk b A w"
  shows "dilation_reach s msk b A v"
  using assms by (induction rule: dilation_reach.induct) (auto intro: dilation_reach.intros)

lemma dilation_reach_closed:
  assumes "dilate_new s msk b cur = []" and "dilation_reach s msk b (set cur) v"
  shows "v \<in> set cur"
  using assms(2)
proof (induction rule: dilation_reach.induct)
  case (dr_init v)
  then show ?case .
next
  case (dr_border v)
  show ?case
  proof (rule ccontr)
    assume "v \<notin> set cur"
    then have "v \<in> set (dilate_new s msk b cur)"
      using dr_border by (simp add: dilate_new_def set_indices)
    then show False using assms(1) by simp
  qed
next
  case (dr_step u v)
  show ?case
  proof (rule ccontr)
    assume "v \<notin> set cur"
    moreover have "u \<in> set (nbrs6 s v)" using dr_step by (simp add: nbrs6_iff)
    ultimately have "v \<in> set (dilate_new s msk b cur)"
      using dr_step by (auto simp: dilate_new_def set_indices)
    then show False using assms(1) by simp
  qed
qed

lemma set_binary_dilation:
  "set (binary_dilation s msk b cur) = {v. dilation_reach s msk b (set cur) v}"
proof (induction s msk b cur rule: binary_dilation.induct)
  case (1 s msk b cur)
  define new where "new = dilate_new s msk b cur"
  show ?case
  proof (cases "new = []")
    case True
    then have "binary_dilation s msk b cur = cur"
      by (subst binary_dilation.simps) (simp add: new_def)
    moreover have "set cur = {v. dilation_reach s msk b (set cur) v}"
      using True dilation_reach_closed [of s msk b cur] 
      by (auto simp: new_def intro: dilation_reach.dr_init)
    ultimately show ?thesis by simp
  next
    case False
    then have "binary_dilation s msk b cur = binary_dilation s msk b (cur @ new)"
      by (subst binary_dilation.simps) (simp add: new_def Let_def)
    moreover have "set (binary_dilation s msk b (cur @ new)) = {v. dilation_reach s msk b (set (cur @ new)) v}"
      using "1.IH" [OF new_def False] .
    moreover have "dilation_reach s msk b (set (cur @ new)) v \<longleftrightarrow> dilation_reach s msk b (set cur) v" for v
    proof
      assume "dilation_reach s msk b (set (cur @ new)) v"
      then have "dilation_reach s msk b (set cur \<union> set new) v" by simp
      then show "dilation_reach s msk b (set cur) v"
        by (rule dilation_reach_absorb) (simp add: new_def dilate_new_reach)
    next
      assume "dilation_reach s msk b (set cur) v"
      then show "dilation_reach s msk b (set (cur @ new)) v"
        by (rule dilation_reach_mono) simp
    qed
    ultimately show ?thesis by simp
  qed
qed

section \<open>Connectivity\<close>

lemma reach_from_border_dilation:
  "reach_from_border s bg v \<longleftrightarrow> dilation_reach s bg True {} v"
proof
  assume "reach_from_border s bg v"
  then show "dilation_reach s bg True {} v"
  proof (induction rule: reach_from_border.induct)
    case (rb_start v)
    then show ?case by (auto intro: dilation_reach.dr_border)
  next
    case (rb_step u v)
    have "in_range s u" using rb_step.hyps(1) by (cases rule: reach_from_border.cases) auto
    then show ?case using rb_step by (auto intro: dilation_reach.dr_step)
  qed
next
  assume "dilation_reach s bg True {} v"
  then show "reach_from_border s bg v"
    by (induction rule: dilation_reach.induct) (auto intro: reach_from_border.intros)
qed

lemma connected6_dilation:
  assumes "in_range s u" and "fg u"
  shows "connected6 s fg u v \<longleftrightarrow> dilation_reach s fg False {u} v"
proof
  assume "connected6 s fg u v"
  then show "dilation_reach s fg False {u} v"
  proof (induction rule: connected6.induct)
    case cn_refl
    then show ?case by (auto intro: dilation_reach.dr_init)
  next
    case (cn_step w v)
    have "in_range s w" using cn_step.hyps(1) by (cases rule: connected6.cases) auto
    then show ?case using cn_step by (auto intro: dilation_reach.dr_step)
  qed
next
  assume "dilation_reach s fg False {u} v"
  then show "connected6 s fg u v"
    using assms by (induction rule: dilation_reach.induct) (auto intro: connected6.intros)
qed

lemma connected6_in_range: "connected6 s fg u v \<Longrightarrow> in_range s v \<and> fg v \<and> in_range s u \<and> fg u"
  by (induction rule: connected6.induct) auto

lemma connected6_trans:
  "connected6 s fg v w \<Longrightarrow> connected6 s fg u v \<Longrightarrow> connected6 s fg u w"
  by (induction rule: connected6.induct) (auto intro: connected6.intros)

lemma connected6_sym: "connected6 s fg u v \<Longrightarrow> connected6 s fg v u"
proof (induction rule: connected6.induct)
  case cn_refl
  then show ?case by (auto intro: connected6.intros)
next
  case (cn_step w v)
  have w: "in_range s w" "fg w" using cn_step.hyps(1) connected6_in_range by blast+
  have "connected6 s fg v v" using cn_step by (auto intro: connected6.intros)
  then have "connected6 s fg v w"
    using cn_step w adj6_sym by (blast intro: connected6.cn_step)
  then show ?case using cn_step.IH connected6_trans by blast
qed

lemma component_subset: "component s fg v \<subseteq> {u. in_range s u}"
  unfolding component_def using connected6_in_range by blast

lemma component_eq: "u \<in> component s fg v \<Longrightarrow> component s fg u = component s fg v"
  unfolding component_def using connected6_sym connected6_trans by blast

lemma component_self: "in_range s v \<Longrightarrow> fg v \<Longrightarrow> v \<in> component s fg v"
  by (simp add: component_def connected6.cn_refl)

lemma set_component_dilation:
  "in_range s v \<Longrightarrow> fg v \<Longrightarrow> set (binary_dilation s fg False [v]) = component s fg v"
  by (simp add: set_binary_dilation component_def connected6_dilation)

lemma at_binary_fill_holes:
  assumes "in_range (shape a) v"
  shows "at (binary_fill_holes a) v = (\<not> reach_from_border (shape a) (\<lambda>u. at a u = 0) v)"
  using assms
  by (simp add: binary_fill_holes_def Let_def at_tabulate set_binary_dilation
      reach_from_border_dilation)

lemma shape_binary_fill_holes [simp]: "shape (binary_fill_holes a) = shape a"
  by (simp add: binary_fill_holes_def Let_def)

lemma wf_binary_fill_holes [simp]: "wf_array (binary_fill_holes a)"
  by (simp add: binary_fill_holes_def Let_def)

section \<open>The stages on volumes of one shape\<close>

lemma and_then_Inr [simp]: "and_then (Inr x) f = f x"
  by (simp add: and_then_def)

lemma and_then_Inl [simp]: "and_then (Inl e) f = Inl e"
  by (simp add: and_then_def)

lemma broadcast2_sameE:
  assumes "shape a = shape b"
  obtains c where "broadcast2 f a b = Inr c" "shape c = shape a" "wf_array c"
    "\<And>v. in_range (shape a) v \<Longrightarrow> at c v = f (at a v) (at b v)"
proof
  show "broadcast2 f a b = Inr (tabulate (shape a) (\<lambda>v. f (at a v) (at b v)))"
    using assms by (rule broadcast2_same)
  show "shape (tabulate (shape a) (\<lambda>v. f (at a v) (at b v))) = shape a" by simp
  show "wf_array (tabulate (shape a) (\<lambda>v. f (at a v) (at b v)))" by simp
  show "\<And>v. in_range (shape a) v \<Longrightarrow> at (tabulate (shape a) (\<lambda>v. f (at a v) (at b v))) v = f (at a v) (at b v)"
    by (rule at_tabulate)
qed

lemma array_eqI:
  assumes "wf_array a" "wf_array b" "shape a = shape b"
    and "\<And>v. in_range (shape a) v \<Longrightarrow> at a v = at b v"
  shows "a = b"
proof -
  have "a = tabulate (shape a) (at a)"
    by (rule tabulate_at [OF assms(1), symmetric])
  also have "\<dots> = tabulate (shape a) (at b)"
    using assms(4) by (rule tabulate_cong)
  also have "\<dots> = tabulate (shape b) (at b)"
    by (simp only: assms(3))
  also have "\<dots> = b"
    by (rule tabulate_at [OF assms(2)])
  finally show ?thesis .
qed

lemma reach_from_border_cong:
  assumes "\<And>u. in_range s u \<Longrightarrow> bg u = bg' u"
  shows "reach_from_border s bg v = reach_from_border s bg' v"
proof
  assume "reach_from_border s bg v"
  then show "reach_from_border s bg' v"
  proof (induction rule: reach_from_border.induct)
    case (rb_start v)
    then show ?case using assms [of v] by (auto intro: reach_from_border.rb_start)
  next
    case (rb_step u v)
    then show ?case using assms [of v] by (auto intro: reach_from_border.rb_step)
  qed
next
  assume "reach_from_border s bg' v"
  then show "reach_from_border s bg v"
  proof (induction rule: reach_from_border.induct)
    case (rb_start v)
    then show ?case using assms [of v] by (auto intro: reach_from_border.rb_start)
  next
    case (rb_step u v)
    then show ?case using assms [of v] by (auto intro: reach_from_border.rb_step)
  qed
qed

lemma mask_combiner_same:
  assumes wf: "wf_array d_brats" "wf_array d_hdglio" and sh: "shape d_hdglio = shape d_brats"
  obtains NE where "mask_combiner d_brats d_hdglio = Inr NE" "shape NE = shape d_brats"
    "wf_array NE"
    "\<And>v. in_range (shape d_brats) v \<Longrightarrow>
       at NE v = (if (at d_hdglio v \<noteq> 0 \<and> at d_brats v = 1) \<or> at d_brats v = 2 then 1 else 0)"
proof -
  let ?s = "shape d_brats"
  define inside where "inside = tabulate ?s
    (\<lambda>v. at (map_nd (\<lambda>x. x \<noteq> 0) d_hdglio) v \<and> at (map_nd (\<lambda>x. x = 1) d_brats) v)"
  have i: "broadcast2 (\<and>) (map_nd (\<lambda>x. x \<noteq> 0) d_hdglio) (map_nd (\<lambda>x. x = 1) d_brats) = Inr inside"
    by (simp add: broadcast2_same sh inside_def)
  have ia: "at inside v = (at d_hdglio v \<noteq> 0 \<and> at d_brats v = 1)" if "in_range ?s v" for v
    using that by (simp add: inside_def at_tabulate at_map_nd wf sh)
  have ish: "shape inside = ?s"
    by (simp add: inside_def)
  define cond where "cond = tabulate ?s (\<lambda>v. at inside v \<or> at (map_nd (\<lambda>x. x = 2) d_brats) v)"
  have c: "broadcast2 (\<or>) inside (map_nd (\<lambda>x. x = 2) d_brats) = Inr cond"
    by (simp add: broadcast2_same ish cond_def)
  have ca: "at cond v = ((at d_hdglio v \<noteq> 0 \<and> at d_brats v = 1) \<or> at d_brats v = 2)"
    if "in_range ?s v" for v
    using that by (simp add: cond_def at_tabulate at_map_nd wf ia)
  have cs: "shape cond = ?s" "wf_array cond"
    by (simp_all add: cond_def)
  show ?thesis
  proof
    show "mask_combiner d_brats d_hdglio = Inr (map_nd (\<lambda>c. if c then 1 else 0) cond)"
      by (simp add: mask_combiner_def i c)
    show "shape (map_nd (\<lambda>c. if c then 1 else (0::int)) cond) = ?s"
      by (simp add: cs)
    show "wf_array (map_nd (\<lambda>c. if c then 1 else (0::int)) cond)"
      by (simp add: cs)
    show "at (map_nd (\<lambda>c. if c then 1 else (0::int)) cond) v =
        (if (at d_hdglio v \<noteq> 0 \<and> at d_brats v = 1) \<or> at d_brats v = 2 then 1 else 0)"
      if "in_range ?s v" for v
      using that by (simp add: at_map_nd cs ca)
  qed
qed

lemma enclosure_filler_same:
  assumes wf: "wf_array d_brats" "wf_array NE" and sh: "shape NE = shape d_brats"
  obtains NE' where "enclosure_filler d_brats NE = Inr NE'" "shape NE' = shape d_brats"
    "wf_array NE'"
    "\<And>v. in_range (shape d_brats) v \<Longrightarrow>
       at NE' v = (if at (binary_fill_holes (map_nd (\<lambda>x. if x = 4 then 1 else 0) d_brats)) v
                      \<and> at d_brats v \<noteq> 4 then 0 else at NE v)"
proof -
  let ?s = "shape d_brats"
  define AT where "AT = map_nd (\<lambda>x. if x = 4 then 1 else (0::int)) d_brats"
  define filled_AT where "filled_AT = binary_fill_holes AT"
  have AT: "shape AT = ?s" "wf_array AT"
    by (simp_all add: AT_def wf)
  have ATa: "(at AT v = 0) = (at d_brats v \<noteq> 4)" if "in_range ?s v" for v
    using that by (simp add: AT_def wf at_map_nd)
  have F: "shape filled_AT = ?s" "wf_array filled_AT"
    by (simp_all add: filled_AT_def AT)
  define cond where "cond = tabulate ?s
    (\<lambda>v. at (map_nd (\<lambda>f. (if f then 1 else (0::int)) = 1) filled_AT) v \<and>
         at (map_nd (\<lambda>x. x = 0) AT) v)"
  have c: "broadcast2 (\<and>) (map_nd (\<lambda>f. (if f then 1 else (0::int)) = 1) filled_AT)
        (map_nd (\<lambda>x. x = 0) AT) = Inr cond"
    by (simp add: broadcast2_same AT F cond_def)
  have ca: "at cond v = (at filled_AT v \<and> at d_brats v \<noteq> 4)" if "in_range ?s v" for v
    using that by (simp add: cond_def at_tabulate at_map_nd AT F ATa)
  have cs: "shape cond = ?s" "wf_array cond"
    by (simp_all add: cond_def)
  define enclosed_NCR where "enclosed_NCR = map_nd (\<lambda>c. if c then 1 else (0::int)) cond"
  have es: "shape enclosed_NCR = ?s" "wf_array enclosed_NCR"
    by (simp_all add: enclosed_NCR_def cs)
  have ea: "(at enclosed_NCR v = 1) = at cond v" if "in_range ?s v" for v
    using that by (simp add: enclosed_NCR_def at_map_nd cs)
  define NE' where "NE' = tabulate ?s
    (\<lambda>v. if at (map_nd (\<lambda>x. x = 1) enclosed_NCR) v then 0 else at NE v)"
  have n: "broadcast2 (\<lambda>e x. if e then 0 else x) (map_nd (\<lambda>x. x = 1) enclosed_NCR) NE = Inr NE'"
    by (simp add: broadcast2_same es sh NE'_def)
  have na: "at NE' v = (if at filled_AT v \<and> at d_brats v \<noteq> 4 then 0 else at NE v)"
    if "in_range ?s v" for v
    using that by (simp add: NE'_def at_tabulate at_map_nd es ea ca)
  show ?thesis
  proof
    show "enclosure_filler d_brats NE = Inr NE'"
      unfolding enclosure_filler_def Let_def AT_def [symmetric] filled_AT_def [symmetric]
      by (simp add: c enclosed_NCR_def [symmetric] n)
    show "shape NE' = ?s" "wf_array NE'"
      by (simp_all add: NE'_def)
    show "at NE' v = (if at (binary_fill_holes (map_nd (\<lambda>x. if x = 4 then 1 else 0) d_brats)) v
                      \<and> at d_brats v \<noteq> 4 then 0 else at NE v)"
      if "in_range ?s v" for v
      using na [OF that] by (simp only: filled_AT_def AT_def)
  qed
qed

lemma filled_AT_iff:
  assumes "wf_array d_brats" "in_range (shape d_brats) v"
  shows "at (binary_fill_holes (map_nd (\<lambda>x. if x = 4 then 1 else 0) d_brats)) v =
         (\<not> reach_from_border (shape d_brats) (\<lambda>u. at d_brats u \<noteq> 4) v)"
proof -
  have "reach_from_border (shape d_brats)
          (\<lambda>u. at (map_nd (\<lambda>x. if x = 4 then 1 else (0::int)) d_brats) u = 0) v =
        reach_from_border (shape d_brats) (\<lambda>u. at d_brats u \<noteq> 4) v"
    by (rule reach_from_border_cong) (simp add: at_map_nd assms(1))
  moreover have "at (binary_fill_holes (map_nd (\<lambda>x. if x = 4 then 1 else 0) d_brats)) v =
      (\<not> reach_from_border (shape (map_nd (\<lambda>x. if x = 4 then 1 else (0::int)) d_brats))
          (\<lambda>u. at (map_nd (\<lambda>x. if x = 4 then 1 else (0::int)) d_brats) u = 0) v)"
    by (rule at_binary_fill_holes) (simp add: assms(2))
  ultimately show ?thesis by simp
qed

text \<open>Where every voxel is background, each voxel is reached along its first axis.\<close>

lemma reach_all_background:
  assumes bg: "\<And>u. in_range s u \<Longrightarrow> bg u" and v: "in_range s v"
  shows "reach_from_border s bg v"
proof -
  obtain nx ny nz where s: "s = (nx, ny, nz)" by (cases s) auto
  obtain i j k where vv: "v = (i, j, k)" by (cases v) auto
  have r: "j < ny" "k < nz" "i < nx" using v by (simp_all add: s vv)
  have "i < nx \<Longrightarrow> reach_from_border s bg (i, j, k)"
  proof (induction i)
    case 0
    have "in_range s (0, j, k)" using 0 r by (simp add: s)
    moreover have "on_border s (0, j, k)" by (simp add: s)
    ultimately show ?case using bg by (auto intro: reach_from_border.rb_start)
  next
    case (Suc i)
    have a: "reach_from_border s bg (i, j, k)" using Suc by simp
    have b: "in_range s (Suc i, j, k)" using Suc r by (simp add: s)
    have c: "adj6 (i, j, k) (Suc i, j, k)" by simp
    show ?case using reach_from_border.rb_step [OF a c b] bg [OF b] by simp
  qed
  then show ?thesis using r by (simp add: vv)
qed

lemma reach_from_border_bg: "reach_from_border s bg v \<Longrightarrow> bg v"
  by (cases rule: reach_from_border.cases) auto

section \<open>Labelling and the size filter\<close>

lemma label_scan_keeps: "c \<in> set comps \<Longrightarrow> c \<in> set (label_scan s fg vs comps)"
  by (induction vs arbitrary: comps) auto

lemma label_scan_covers:
  "v \<in> set vs \<Longrightarrow> fg v \<Longrightarrow> in_range s v \<Longrightarrow> \<exists>c \<in> set (label_scan s fg vs comps). v \<in> set c"
proof (induction vs arbitrary: comps)
  case Nil
  then show ?case by simp
next
  case (Cons w vs)
  show ?case
  proof (cases "v = w")
    case True
    show ?thesis
    proof (cases "\<exists>c \<in> set comps. v \<in> set c")
      case True
      then obtain c where "c \<in> set comps" "v \<in> set c" by blast
      then show ?thesis using label_scan_keeps by blast
    next
      case False
      let ?c = "binary_dilation s fg False [v]"
      have "v \<in> set ?c"
        using Cons.prems by (simp add: set_component_dilation component_self)
      moreover have "?c \<in> set (label_scan s fg vs (comps @ [?c]))"
        by (rule label_scan_keeps) simp
      ultimately show ?thesis
        using False Cons.prems \<open>v = w\<close> by auto
    qed
  next
    case False
    then have "v \<in> set vs" using Cons.prems by simp
    then show ?thesis using Cons.IH Cons.prems by simp
  qed
qed

lemma label_scan_components:
  assumes "\<forall>c \<in> set comps. \<forall>u \<in> set c. set c = component s fg u"
    and "\<forall>v \<in> set vs. in_range s v"
  shows "\<forall>c \<in> set (label_scan s fg vs comps). \<forall>u \<in> set c. set c = component s fg u"
  using assms
proof (induction vs arbitrary: comps)
  case Nil
  then show ?case by simp
next
  case (Cons w vs)
  show ?case
  proof (cases "fg w \<and> \<not> (\<exists>c \<in> set comps. w \<in> set c)")
    case True
    let ?c = "binary_dilation s fg False [w]"
    have w: "in_range s w" "fg w" using Cons.prems True by simp_all
    have c: "set ?c = component s fg w"
      using w by (rule set_component_dilation)
    have "\<forall>u \<in> set ?c. set ?c = component s fg u"
      using c component_eq by blast
    then have "\<forall>c \<in> set (comps @ [?c]). \<forall>u \<in> set c. set c = component s fg u"
      using Cons.prems(1) by simp
    then have "\<forall>c \<in> set (label_scan s fg vs (comps @ [?c])). \<forall>u \<in> set c. set c = component s fg u"
      using Cons.prems(2) by (intro Cons.IH) simp_all
    then show ?thesis using True by simp
  next
    case False
    have "\<forall>c \<in> set (label_scan s fg vs comps). \<forall>u \<in> set c. set c = component s fg u"
      using Cons.prems by (intro Cons.IH) simp_all
    then show ?thesis using False by auto
  qed
qed

lemma component_id_range: "component_id n cs v = 0 \<or> n \<le> component_id n cs v"
proof (induction cs arbitrary: n)
  case Nil
  then show ?case by simp
next
  case (Cons c cs)
  show ?case using Cons.IH [of "Suc n"] by auto
qed

lemma component_id_zero_iff:
  "0 < n \<Longrightarrow> (component_id n cs v = 0) = (\<forall>c \<in> set cs. v \<notin> set c)"
  by (induction cs arbitrary: n) auto

lemma component_id_eq_iff:
  assumes "\<forall>c \<in> set cs. \<forall>u \<in> set c. set c = component s fg u"
    and "0 < n" and "\<exists>c \<in> set cs. v \<in> set c"
  shows "(component_id n cs u = component_id n cs v) = (u \<in> component s fg v)"
  using assms
proof (induction cs arbitrary: n)
  case Nil
  then show ?case by simp
next
  case (Cons c cs)
  show ?case
  proof (cases "v \<in> set c")
    case True
    then have cv: "set c = component s fg v" using Cons.prems(1) by simp
    show ?thesis
    proof (cases "u \<in> set c")
      case True
      then show ?thesis using \<open>v \<in> set c\<close> cv by simp
    next
      case False
      have "component_id (Suc n) cs u \<noteq> n"
        using component_id_range [of "Suc n" cs u] Cons.prems(2) by auto
      then show ?thesis using False \<open>v \<in> set c\<close> cv by simp
    qed
  next
    case False
    then have ex: "\<exists>c \<in> set cs. v \<in> set c" using Cons.prems(3) by simp
    show ?thesis
    proof (cases "u \<in> set c")
      case True
      then have cu: "set c = component s fg u" using Cons.prems(1) by simp
      have "component_id (Suc n) cs v \<noteq> 0"
        using ex by (simp add: component_id_zero_iff)
      then have "component_id (Suc n) cs v \<noteq> n"
        using component_id_range [of "Suc n" cs v] by auto
      moreover have "u \<notin> component s fg v"
      proof
        assume "u \<in> component s fg v"
        then have "component s fg u = component s fg v" by (rule component_eq)
        moreover have "v \<in> component s fg v"
          using \<open>u \<in> component s fg v\<close> connected6_in_range [of s fg v u]
          by (simp add: component_def connected6.cn_refl)
        ultimately show False using cu False by simp
      qed
      ultimately show ?thesis using True False by simp
    next
      case False
      have "(component_id (Suc n) cs u = component_id (Suc n) cs v) = (u \<in> component s fg v)"
        using Cons.prems(1) ex by (intro Cons.IH) simp_all
      then show ?thesis using False \<open>v \<notin> set c\<close> by simp
    qed
  qed
qed

lemma count_list_map_filter: "count_list (map f xs) y = length (filter (\<lambda>x. f x = y) xs)"
  by (induction xs) auto

lemma label_props:
  fixes input :: "int ndarray"
  defines "s \<equiv> shape input" and "fg \<equiv> \<lambda>v. at input v \<noteq> 0"
  defines "L \<equiv> fst (label input)"
  shows "shape L = s" and "wf_array L"
    and "in_range s v \<Longrightarrow> (at L v = 0) = (at input v = 0)"
    and "in_range s v \<Longrightarrow> at input v \<noteq> 0 \<Longrightarrow>
         count_list (elems L) (at L v) = card (component s fg v)"
    and "in_range s v \<Longrightarrow> at L v \<in> set (elems L)"
proof -
  define comps where "comps = label_scan s fg (indices s) []"
  have L: "L = tabulate s (component_id 1 comps)"
    by (simp add: L_def label_def Let_def comps_def s_def fg_def)
  show "shape L = s" "wf_array L"
    by (simp_all add: L)
  have inv: "\<forall>c \<in> set comps. \<forall>u \<in> set c. set c = component s fg u"
    unfolding comps_def by (rule label_scan_components) (simp_all add: set_indices)
  have mem: "u \<in> set c \<Longrightarrow> c \<in> set comps \<Longrightarrow> in_range s u \<and> fg u" for u c
  proof -
    assume "u \<in> set c" "c \<in> set comps"
    then have "u \<in> component s fg u" using inv by blast
    then have "connected6 s fg u u" by (simp add: component_def)
    then show ?thesis using connected6_in_range [of s fg u u] by blast
  qed
  have cov: "\<exists>c \<in> set comps. u \<in> set c" if "in_range s u" "fg u" for u
    unfolding comps_def using that by (intro label_scan_covers) (simp_all add: set_indices)
  have atL: "at L u = component_id 1 comps u" if "in_range s u" for u
    using that by (simp add: L at_tabulate)
  show z: "(at L v = 0) = (at input v = 0)" if v: "in_range s v"
  proof -
    have "(component_id 1 comps v = 0) = (\<not> fg v)"
    proof (cases "fg v")
      case True
      then have "\<exists>c \<in> set comps. v \<in> set c" using v by (rule cov [rotated])
      then show ?thesis using True by (simp add: component_id_zero_iff)
    next
      case False
      then have "\<forall>c \<in> set comps. v \<notin> set c" using mem by blast
      then show ?thesis using False by (simp add: component_id_zero_iff)
    qed
    then show ?thesis using v by (simp add: atL fg_def)
  qed
  show "at L v \<in> set (elems L)" if v: "in_range s v"
    using v by (auto simp: L elems_tabulate at_tabulate set_indices)
  show "count_list (elems L) (at L v) = card (component s fg v)"
    if v: "in_range s v" and f: "at input v \<noteq> 0"
  proof -
    have fv: "fg v" using f by (simp add: fg_def)
    have eq: "(component_id 1 comps u = component_id 1 comps v) = (u \<in> component s fg v)" for u
      using inv cov [OF v fv] by (intro component_id_eq_iff) simp_all
    have "count_list (elems L) (at L v) =
        length (filter (\<lambda>u. component_id 1 comps u = component_id 1 comps v) (indices s))"
      using v by (simp add: L elems_tabulate at_tabulate count_list_map_filter)
    also have "\<dots> =
        card ({u. component_id 1 comps u = component_id 1 comps v} \<inter> set (indices s))"
      by (rule distinct_length_filter [OF distinct_indices])
    also have "{u. component_id 1 comps u = component_id 1 comps v} = component s fg v"
      using eq by blast
    also have "component s fg v \<inter> set (indices s) = component s fg v"
      using component_subset [of s fg v] by (auto simp: set_indices)
    finally show ?thesis .
  qed
qed

lemma select_above_unique_counts:
  "(x \<in> set (select_above (fst (unique_counts a)) (snd (unique_counts a)) t)) =
   (x \<in> set (elems a) \<and> t < int (count_list (elems a) x) \<and> 0 < x)"
proof -
  let ?lbls = "sort (remdups (elems a))"
  have "zip ?lbls (map (count_list (elems a)) ?lbls) =
      map (\<lambda>l. (l, count_list (elems a) l)) ?lbls"
    by (simp add: zip_map2 zip_same_conv_map)
  then have "select_above (fst (unique_counts a)) (snd (unique_counts a)) t =
      map fst (filter (\<lambda>(l, c). t < int c \<and> 0 < l)
        (map (\<lambda>l. (l, count_list (elems a) l)) ?lbls))"
    by (simp add: select_above_def unique_counts_def Let_def)
  also have "\<dots> = filter (\<lambda>l. t < int (count_list (elems a) l) \<and> 0 < l) ?lbls"
    by (simp add: filter_map comp_def)
  finally show ?thesis by auto
qed

lemma component_size_filter_same:
  assumes wf: "wf_array NE" "wf_array d_brats" and sh: "shape NE = shape d_brats"
  obtains NE_out where "component_size_filter NE d_brats t = Inr NE_out"
    "shape NE_out = shape d_brats" "wf_array NE_out"
    "\<And>v. in_range (shape d_brats) v \<Longrightarrow>
       at NE_out v =
         (if (at NE v \<noteq> 0 \<and> t < int (card (component (shape d_brats) (\<lambda>u. at NE u \<noteq> 0) v)))
             \<or> at d_brats v = 2 then 1 else 0)"
proof -
  let ?s = "shape d_brats"
  define labelled_NE where "labelled_NE = fst (label NE)"
  define lbls_above_thr where "lbls_above_thr =
    select_above (fst (unique_counts labelled_NE)) (snd (unique_counts labelled_NE)) t"
  have ls: "shape labelled_NE = ?s" "wf_array labelled_NE"
    using label_props(1,2) [of NE] by (simp_all add: labelled_NE_def sh)
  have sel: "(at labelled_NE v \<in> set lbls_above_thr) =
      (at NE v \<noteq> 0 \<and> t < int (card (component ?s (\<lambda>u. at NE u \<noteq> 0) v)))"
    if v: "in_range ?s v" for v
  proof -
    have v': "in_range (shape NE) v" using v by (simp add: sh)
    have z: "(at labelled_NE v = 0) = (at NE v = 0)"
      unfolding labelled_NE_def using v' by (rule label_props(3))
    have m: "at labelled_NE v \<in> set (elems labelled_NE)"
      unfolding labelled_NE_def using v' by (rule label_props(5))
    show ?thesis
    proof (cases "at NE v = 0")
      case True
      then show ?thesis using z by (simp add: lbls_above_thr_def select_above_unique_counts)
    next
      case False
      have "count_list (elems labelled_NE) (at labelled_NE v) =
          card (component (shape NE) (\<lambda>u. at NE u \<noteq> 0) v)"
        unfolding labelled_NE_def using v' False by (rule label_props(4))
      then show ?thesis
        using False z m by (simp add: lbls_above_thr_def select_above_unique_counts sh)
    qed
  qed
  define cond where "cond = tabulate ?s
    (\<lambda>v. at (isin labelled_NE lbls_above_thr) v \<or> at (map_nd (\<lambda>x. x = 2) d_brats) v)"
  have c: "broadcast2 (\<or>) (isin labelled_NE lbls_above_thr) (map_nd (\<lambda>x. x = 2) d_brats) = Inr cond"
    by (simp add: broadcast2_same isin_def ls cond_def)
  have ca: "at cond v =
      ((at NE v \<noteq> 0 \<and> t < int (card (component ?s (\<lambda>u. at NE u \<noteq> 0) v))) \<or> at d_brats v = 2)"
    if "in_range ?s v" for v
    using that by (simp add: cond_def at_tabulate isin_def at_map_nd ls wf sel)
  have cs: "shape cond = ?s" "wf_array cond"
    by (simp_all add: cond_def)
  show ?thesis
  proof
    show "component_size_filter NE d_brats t = Inr (map_nd (\<lambda>c. if c then 1 else 0) cond)"
      by (simp add: component_size_filter_def Let_def split_def labelled_NE_def [symmetric]
          lbls_above_thr_def [symmetric] c)
    show "shape (map_nd (\<lambda>c. if c then 1 else (0::int)) cond) = ?s"
      "wf_array (map_nd (\<lambda>c. if c then 1 else (0::int)) cond)"
      by (simp_all add: cs)
    show "at (map_nd (\<lambda>c. if c then 1 else (0::int)) cond) v =
         (if (at NE v \<noteq> 0 \<and> t < int (card (component ?s (\<lambda>u. at NE u \<noteq> 0) v)))
             \<or> at d_brats v = 2 then 1 else 0)"
      if "in_range ?s v" for v
      using that by (simp add: at_map_nd cs ca)
  qed
qed

lemma label_merger_same:
  assumes wf: "wf_array d_brats" "wf_array NE_out" and sh: "shape NE_out = shape d_brats"
  obtains d_out where "label_merger d_brats NE_out = Inr d_out"
    "shape d_out = shape d_brats" "wf_array d_out"
    "\<And>v. in_range (shape d_brats) v \<Longrightarrow>
       at d_out v = (if at d_brats v = 4 then 2 else at NE_out v)"
proof
  let ?d = "tabulate (shape d_brats)
    (\<lambda>v. if at (map_nd (\<lambda>x. x = 4) d_brats) v then 2 else at NE_out v)"
  show "label_merger d_brats NE_out = Inr ?d"
    by (simp add: label_merger_def broadcast2_same sh)
  show "shape ?d = shape d_brats" "wf_array ?d"
    by simp_all
  show "at ?d v = (if at d_brats v = 4 then 2 else at NE_out v)"
    if "in_range (shape d_brats) v" for v
    using that by (simp add: at_tabulate at_map_nd wf)
qed

section \<open>The whole conversion on volumes of one shape\<close>

lemma and_then_assoc: "and_then (and_then r f) g = and_then r (\<lambda>x. and_then (f x) g)"
  by (cases r) simp_all

lemma convert_data_stages:
  "convert_data_brats2021_to_twolabel d_brats d_hdglio t at_fill =
   and_then (NE_out_value d_brats d_hdglio t at_fill) (label_merger d_brats)"
  by (simp add: convert_data_brats2021_to_twolabel_def NE_out_value_def NE_before_filter_def
      and_then_assoc)

lemma NE_before_filter_same:
  assumes wf: "wf_array d_brats" "wf_array d_hdglio" and sh: "shape d_hdglio = shape d_brats"
  obtains NE where "NE_before_filter d_brats d_hdglio at_fill = Inr NE"
    "shape NE = shape d_brats" "wf_array NE"
proof -
  obtain M0 where m0: "mask_combiner d_brats d_hdglio = Inr M0" "shape M0 = shape d_brats"
    "wf_array M0"
    using mask_combiner_same [OF wf sh] by blast
  show ?thesis
  proof (cases at_fill)
    case True
    obtain M1 where "enclosure_filler d_brats M0 = Inr M1" "shape M1 = shape d_brats"
      "wf_array M1"
      using enclosure_filler_same [OF wf(1) m0(3) m0(2)] by blast
    then show ?thesis using that True m0 by (simp add: NE_before_filter_def)
  next
    case False
    then show ?thesis using that m0 by (simp add: NE_before_filter_def)
  qed
qed

lemma convert_data_same:
  assumes wf: "wf_array d_brats" "wf_array d_hdglio" and sh: "shape d_hdglio = shape d_brats"
  obtains NE NE_out d_out where
    "NE_before_filter d_brats d_hdglio at_fill = Inr NE" "shape NE = shape d_brats" "wf_array NE"
    "NE_out_value d_brats d_hdglio t at_fill = Inr NE_out" "shape NE_out = shape d_brats"
    "\<And>v. in_range (shape d_brats) v \<Longrightarrow>
       at NE_out v =
         (if (at NE v \<noteq> 0 \<and> t < int (card (component (shape d_brats) (\<lambda>u. at NE u \<noteq> 0) v)))
             \<or> at d_brats v = 2 then 1 else 0)"
    "convert_data_brats2021_to_twolabel d_brats d_hdglio t at_fill = Inr d_out"
    "shape d_out = shape d_brats"
    "\<And>v. in_range (shape d_brats) v \<Longrightarrow>
       at d_out v = (if at d_brats v = 4 then 2 else at NE_out v)"
proof -
  obtain NE where n: "NE_before_filter d_brats d_hdglio at_fill = Inr NE"
    "shape NE = shape d_brats" "wf_array NE"
    using NE_before_filter_same [OF wf sh] by blast
  obtain NE_out where o: "component_size_filter NE d_brats t = Inr NE_out"
    "shape NE_out = shape d_brats" "wf_array NE_out"
    and oa: "\<And>v. in_range (shape d_brats) v \<Longrightarrow>
       at NE_out v =
         (if (at NE v \<noteq> 0 \<and> t < int (card (component (shape d_brats) (\<lambda>u. at NE u \<noteq> 0) v)))
             \<or> at d_brats v = 2 then 1 else 0)"
    using component_size_filter_same [OF n(3) wf(1) n(2)] by blast
  obtain d_out where d: "label_merger d_brats NE_out = Inr d_out" "shape d_out = shape d_brats"
    and da: "\<And>v. in_range (shape d_brats) v \<Longrightarrow>
       at d_out v = (if at d_brats v = 4 then 2 else at NE_out v)"
    using label_merger_same [OF wf(1) o(3) o(2)] by blast
  have v: "NE_out_value d_brats d_hdglio t at_fill = Inr NE_out"
    by (simp add: NE_out_value_def n o)
  have "convert_data_brats2021_to_twolabel d_brats d_hdglio t at_fill = Inr d_out"
    by (simp add: convert_data_stages v d)
  then show ?thesis using that n v o(2) oa d(2) da by blast
qed

section \<open>Shapes that broadcast\<close>

lemma broadcast_dim_absorb:
  "broadcast_dim m n = Some k \<Longrightarrow> broadcast_dim k n = Some k \<and> broadcast_dim n k = Some k"
  by (auto simp: broadcast_dim_def split: if_splits)

lemma broadcast_shapes_absorb:
  assumes "broadcast_shapes a b = Some c"
  shows "broadcast_shapes c b = Some c" and "broadcast_shapes b c = Some c"
proof -
  obtain ax ay az where a: "a = (ax, ay, az)" by (cases a) auto
  obtain bx "by" bz where b: "b = (bx, by, bz)" by (cases b) auto
  obtain cx cy cz where c: "c = (cx, cy, cz)" by (cases c) auto
  have d: "broadcast_dim ax bx = Some cx" "broadcast_dim ay by = Some cy"
    "broadcast_dim az bz = Some cz"
    using assms by (auto simp: a b c split: option.splits)
  show "broadcast_shapes c b = Some c" "broadcast_shapes b c = Some c"
    using broadcast_dim_absorb [OF d(1)] broadcast_dim_absorb [OF d(2)]
      broadcast_dim_absorb [OF d(3)]
    by (simp_all add: b c)
qed

lemma broadcast2_Some:
  "broadcast_shapes (shape a) (shape b) = Some s \<Longrightarrow>
   \<exists>c. broadcast2 f a b = Inr c \<and> shape c = s"
  by (simp add: broadcast2_def)

lemma broadcast2_None:
  "broadcast_shapes (shape a) (shape b) = None \<Longrightarrow> broadcast2 f a b = Inl ValueError"
  by (simp add: broadcast2_def)

lemma mask_combiner_None:
  "broadcast_shapes (shape d_hdglio) (shape d_brats) = None \<Longrightarrow>
   mask_combiner d_brats d_hdglio = Inl ValueError"
  by (simp add: mask_combiner_def broadcast2_None)

lemma mask_combiner_Some:
  assumes "broadcast_shapes (shape d_hdglio) (shape d_brats) = Some s"
  shows "\<exists>NE. mask_combiner d_brats d_hdglio = Inr NE \<and> shape NE = s"
proof -
  obtain inside where i: "broadcast2 (\<and>) (map_nd (\<lambda>x. x \<noteq> 0) d_hdglio)
      (map_nd (\<lambda>x. x = 1) d_brats) = Inr inside" "shape inside = s"
    using broadcast2_Some [of "map_nd (\<lambda>x. x \<noteq> 0) d_hdglio" "map_nd (\<lambda>x. x = 1) d_brats" s "(\<and>)"]
      assms by auto
  have "broadcast_shapes (shape inside) (shape (map_nd (\<lambda>x. x = 2) d_brats)) = Some s"
    using broadcast_shapes_absorb(1) [OF assms] i(2) by simp
  then obtain cond where c: "broadcast2 (\<or>) inside (map_nd (\<lambda>x. x = 2) d_brats) = Inr cond"
    "shape cond = s"
    using broadcast2_Some [of inside "map_nd (\<lambda>x. x = 2) d_brats" s "(\<or>)"] by auto
  show ?thesis
    by (simp add: mask_combiner_def i c)
qed

lemma enclosure_filler_Some:
  assumes "broadcast_shapes (shape d_brats) (shape NE) = Some (shape NE)"
  shows "\<exists>NE'. enclosure_filler d_brats NE = Inr NE' \<and> shape NE' = shape NE"
proof -
  define AT where "AT = map_nd (\<lambda>x. if x = 4 then 1 else (0::int)) d_brats"
  define filled_AT where "filled_AT = binary_fill_holes AT"
  have s: "shape AT = shape d_brats" "shape filled_AT = shape d_brats"
    by (simp_all add: AT_def filled_AT_def)
  obtain cond where c: "broadcast2 (\<and>) (map_nd (\<lambda>f. (if f then 1 else (0::int)) = 1) filled_AT)
        (map_nd (\<lambda>x. x = 0) AT) = Inr cond" "shape cond = shape d_brats"
    using broadcast2_Some [of "map_nd (\<lambda>f. (if f then 1 else (0::int)) = 1) filled_AT"
        "map_nd (\<lambda>x. x = 0) AT" "shape d_brats" "(\<and>)"] s by auto
  define enclosed_NCR where "enclosed_NCR = map_nd (\<lambda>c. if c then 1 else (0::int)) cond"
  have "broadcast_shapes (shape (map_nd (\<lambda>x. x = 1) enclosed_NCR)) (shape NE) = Some (shape NE)"
    using assms by (simp add: enclosed_NCR_def c)
  then obtain NE' where n: "broadcast2 (\<lambda>e x. if e then 0 else x)
      (map_nd (\<lambda>x. x = 1) enclosed_NCR) NE = Inr NE'" "shape NE' = shape NE"
    using broadcast2_Some [of "map_nd (\<lambda>x. x = 1) enclosed_NCR" NE "shape NE"
        "\<lambda>e x. if e then 0 else x"] by auto
  have "enclosure_filler d_brats NE = Inr NE'"
    unfolding enclosure_filler_def Let_def AT_def [symmetric] filled_AT_def [symmetric]
    by (simp add: c enclosed_NCR_def [symmetric] n)
  then show ?thesis using n(2) by simp
qed

lemma shape_label [simp]: "shape (fst (label a)) = shape a"
  by (simp add: label_def Let_def)

lemma component_size_filter_Some:
  assumes "broadcast_shapes (shape NE) (shape d_brats) = Some (shape NE)"
  shows "\<exists>NE_out. component_size_filter NE d_brats t = Inr NE_out \<and> shape NE_out = shape NE"
proof -
  define labelled_NE where "labelled_NE = fst (label NE)"
  define lbls_above_thr where "lbls_above_thr =
    select_above (fst (unique_counts labelled_NE)) (snd (unique_counts labelled_NE)) t"
  have "broadcast_shapes (shape (isin labelled_NE lbls_above_thr))
      (shape (map_nd (\<lambda>x. x = 2) d_brats)) = Some (shape NE)"
    using assms by (simp add: isin_def labelled_NE_def)
  then obtain cond where c: "broadcast2 (\<or>) (isin labelled_NE lbls_above_thr)
      (map_nd (\<lambda>x. x = 2) d_brats) = Inr cond" "shape cond = shape NE"
    using broadcast2_Some [of "isin labelled_NE lbls_above_thr" "map_nd (\<lambda>x. x = 2) d_brats"
        "shape NE" "(\<or>)"] by auto
  have "component_size_filter NE d_brats t = Inr (map_nd (\<lambda>c. if c then 1 else 0) cond)"
    by (simp add: component_size_filter_def Let_def split_def labelled_NE_def [symmetric]
        lbls_above_thr_def [symmetric] c)
  then show ?thesis using c(2) by simp
qed

lemma label_merger_Some:
  assumes "broadcast_shapes (shape d_brats) (shape NE_out) = Some (shape NE_out)"
  shows "\<exists>d_out. label_merger d_brats NE_out = Inr d_out \<and> shape d_out = shape NE_out"
  using broadcast2_Some [of "map_nd (\<lambda>x. x = 4) d_brats" NE_out "shape NE_out"
      "\<lambda>c x. if c then 2 else x"] assms
  by (simp add: label_merger_def)

lemma convert_data_None:
  "broadcast_shapes (shape d_hdglio) (shape d_brats) = None \<Longrightarrow>
   convert_data_brats2021_to_twolabel d_brats d_hdglio t at_fill = Inl ValueError"
  by (simp add: convert_data_brats2021_to_twolabel_def mask_combiner_None)

lemma convert_data_Some:
  assumes "broadcast_shapes (shape d_hdglio) (shape d_brats) = Some s"
  shows "\<exists>d_out. convert_data_brats2021_to_twolabel d_brats d_hdglio t at_fill = Inr d_out
           \<and> shape d_out = s"
proof -
  obtain M0 where m0: "mask_combiner d_brats d_hdglio = Inr M0" "shape M0 = s"
    using mask_combiner_Some [OF assms] by blast
  have b1: "broadcast_shapes s (shape d_brats) = Some s"
    and b2: "broadcast_shapes (shape d_brats) s = Some s"
    using broadcast_shapes_absorb [OF assms] by simp_all
  obtain M1 where m1: "(if at_fill then enclosure_filler d_brats M0 else Inr M0) = Inr M1"
    "shape M1 = s"
    using enclosure_filler_Some [of d_brats M0] b2 m0(2) by (cases at_fill) auto
  obtain M2 where m2: "component_size_filter M1 d_brats t = Inr M2" "shape M2 = s"
    using component_size_filter_Some [of M1 d_brats t] b1 m1(2) by auto
  obtain d_out where d: "label_merger d_brats M2 = Inr d_out" "shape d_out = s"
    using label_merger_Some [of d_brats M2] b2 m2(2) by auto
  have "convert_data_brats2021_to_twolabel d_brats d_hdglio t at_fill = Inr d_out"
    by (simp add: convert_data_brats2021_to_twolabel_def m0 m1 m2 d)
  then show ?thesis using d(2) by simp
qed

lemma and_then_Inl_iff: "(and_then r (\<lambda>x. Inr (h x)) = Inl e) = (r = Inl e)"
  by (cases r) simp_all

section \<open>Properties of the conversion\<close>

text \<open>
  C1: the conversion itself leaves the candidate mask as it is when \<open>at_fill\<close> is false,
  but the file-level conversion passes \<open>at_fill=True\<close> whatever it is given. On the
  shell volume with threshold 0 the enclosed centre voxel stays 1 in the conversion called
  with \<open>at_fill=False\<close>, and is 0 in the file-level conversion called with
  \<open>at_fill=False\<close> and from the command line with an empty \<open>--at_fill\<close> text.
\<close>

theorem file_conversion_ignores_at_fill:
  "NE_before_filter P A False = mask_combiner P A \<and>
   convert_file_brats2021_to_twolabel b h t False = convert_file_brats2021_to_twolabel b h t True \<and>
   result_at (convert_data_brats2021_to_twolabel shell_brats shell_hdglio 0 False) (1, 1, 1)
     = Some 1 \<and>
   result_at (convert_file_brats2021_to_twolabel (map_nd word_of_int shell_brats)
     (map_nd word_of_int shell_hdglio) 0 False) (1, 1, 1) = Some 0 \<and>
   result_at (main (map_nd word_of_int shell_brats) (map_nd word_of_int shell_hdglio)
     (Some 0) (Some '''')) (1, 1, 1) = Some 0"
proof -
  have "NE_before_filter P A False = mask_combiner P A"
    by (cases "mask_combiner P A") (simp_all add: NE_before_filter_def)
  moreover have "convert_file_brats2021_to_twolabel b h t False =
      convert_file_brats2021_to_twolabel b h t True"
    by (simp add: convert_file_brats2021_to_twolabel_def)
  moreover have "result_at (convert_data_brats2021_to_twolabel shell_brats shell_hdglio 0 False)
      (1, 1, 1) = Some 1"
    unfolding shell_brats_def shell_hdglio_def by code_simp
  moreover have f: "result_at (convert_file_brats2021_to_twolabel (map_nd word_of_int shell_brats)
      (map_nd word_of_int shell_hdglio) 0 False) (1, 1, 1) = Some 0"
    unfolding shell_brats_def shell_hdglio_def by code_simp
  moreover have "main (map_nd word_of_int shell_brats) (map_nd word_of_int shell_hdglio)
      (Some 0) (Some '''') =
      convert_file_brats2021_to_twolabel (map_nd word_of_int shell_brats)
        (map_nd word_of_int shell_hdglio) 0 False"
    by (simp add: main_def parse_at_fill_def py_bool_def parse_cluster_size_threshold_def)
  ultimately show ?thesis by simp
qed

text \<open>
  C2 does not hold for every pair of unequal shapes: a primary volume of shape (2,1,1)
  and an auxiliary volume of shape (1,1,1) are converted without an error.
\<close>

theorem unequal_shapes_accepted:
  "shape (NDArray (2, 1, 1) [1, 2::int]) \<noteq> shape (NDArray (1, 1, 1) [1::int]) \<and>
   convert_data_brats2021_to_twolabel (NDArray (2, 1, 1) [1, 2]) (NDArray (1, 1, 1) [1]) 50 True
     = Inr (NDArray (2, 1, 1) [0, 1])"
proof -
  have "convert_data_brats2021_to_twolabel (NDArray (2, 1, 1) [1, 2]) (NDArray (1, 1, 1) [1]) 50 True
     = Inr (NDArray (2, 1, 1) [0, 1])"
    by code_simp
  then show ?thesis by simp
qed

text \<open>
  C2 as amended: the conversion fails, with the error of the first array operation and
  without a result, exactly when the two shapes cannot be broadcast together, that is when
  on some axis the two lengths differ and neither is 1; so does the file-level conversion,
  which then has nothing to write. Otherwise both return a volume.
\<close>

theorem incompatible_shapes_rejected:
  "(convert_data_brats2021_to_twolabel P A T f = Inl ValueError) =
     (broadcast_shapes (shape A) (shape P) = None) \<and>
   (\<exists>D. convert_data_brats2021_to_twolabel P A T f = Inr D) =
     (broadcast_shapes (shape A) (shape P) \<noteq> None) \<and>
   (convert_file_brats2021_to_twolabel Pw Aw T f = Inl ValueError) =
     (broadcast_shapes (shape Aw) (shape Pw) = None)"
proof -
  have a: "convert_data_brats2021_to_twolabel P A T f = Inl ValueError"
    if "broadcast_shapes (shape A) (shape P) = None" for P A f
    using that by (rule convert_data_None)
  have b: "\<exists>D. convert_data_brats2021_to_twolabel P A T f = Inr D"
    if ne: "broadcast_shapes (shape A) (shape P) \<noteq> None" for P A f
  proof -
    obtain s where "broadcast_shapes (shape A) (shape P) = Some s" using ne by blast
    then show ?thesis using convert_data_Some [of A P s T f] by blast
  qed
  have c: "(convert_data_brats2021_to_twolabel P A T f = Inl ValueError) =
      (broadcast_shapes (shape A) (shape P) = None)" for P A f
    using a [of A P f] b [of A P f] by (cases "broadcast_shapes (shape A) (shape P)") auto
  have d: "(\<exists>D. convert_data_brats2021_to_twolabel P A T f = Inr D) =
      (broadcast_shapes (shape A) (shape P) \<noteq> None)"
    using a [of A P f] b [of A P f] by (cases "broadcast_shapes (shape A) (shape P)") auto
  have "(convert_file_brats2021_to_twolabel Pw Aw T f = Inl ValueError) =
      (convert_data_brats2021_to_twolabel (map_nd uint Pw) (map_nd uint Aw) T True = Inl ValueError)"
    by (simp add: convert_file_brats2021_to_twolabel_def and_then_Inl_iff)
  then have e: "(convert_file_brats2021_to_twolabel Pw Aw T f = Inl ValueError) =
      (broadcast_shapes (shape Aw) (shape Pw) = None)"
    using c [of "map_nd uint Pw" "map_nd uint Aw" True] by simp
  show ?thesis using c d e by blast
qed

theorem incompatible_shapes_rejected_witness:
  "convert_data_brats2021_to_twolabel (NDArray (10, 10, 10) (replicate 1000 0))
     (NDArray (8, 10, 10) (replicate 800 0)) 50 True = Inl ValueError \<and>
   \<not> (\<exists>D. convert_data_brats2021_to_twolabel (NDArray (10, 10, 10) (replicate 1000 0))
     (NDArray (8, 10, 10) (replicate 800 0)) 50 True = Inr D) \<and>
   convert_file_brats2021_to_twolabel (NDArray (10, 10, 10) (replicate 1000 0))
     (NDArray (8, 10, 10) (replicate 800 0)) 50 True = Inl ValueError"
  using incompatible_shapes_rejected [of "NDArray (10, 10, 10) (replicate 1000 0)"
      "NDArray (8, 10, 10) (replicate 800 0)" 50 True "NDArray (10, 10, 10) (replicate 1000 0)"
      "NDArray (8, 10, 10) (replicate 800 0)"]
  by (simp add: broadcast_dim_def)

text \<open>
  C3: for primary and auxiliary volumes of one shape, the candidate mask exists, has
  that shape, and at every voxel is 1 exactly when the auxiliary volume is nonzero and
  the primary is 1 there, or the primary is 2 there; it reads no other voxel.
\<close>

theorem mask_combiner_pointwise:
  assumes "wf_array P" "wf_array A" "shape A = shape P" "in_range (shape P) v"
  shows "\<exists>M0. mask_combiner P A = Inr M0 \<and> shape M0 = shape P \<and>
           at M0 v = (if (at A v \<noteq> 0 \<and> at P v = 1) \<or> at P v = 2 then 1 else 0)"
proof -
  obtain M0 where "mask_combiner P A = Inr M0" "shape M0 = shape P"
    "\<And>v. in_range (shape P) v \<Longrightarrow>
       at M0 v = (if (at A v \<noteq> 0 \<and> at P v = 1) \<or> at P v = 2 then 1 else 0)"
    using mask_combiner_same [OF assms(1-3)] by blast
  then show ?thesis using assms(4) by simp
qed

theorem mask_combiner_pointwise_witness:
  "result_at (mask_combiner (NDArray (1, 1, 2) [1, 2]) (NDArray (1, 1, 2) [5, 0])) (0, 0, 0) = Some 1
   \<and> result_at (mask_combiner (NDArray (1, 1, 2) [1, 1]) (NDArray (1, 1, 2) [5, 0])) (0, 0, 1) = Some 0"
proof -
  have "\<exists>M0. mask_combiner (NDArray (1, 1, 2) [1, 2]) (NDArray (1, 1, 2) [5, 0]) = Inr M0 \<and>
      shape M0 = shape (NDArray (1, 1, 2) [1, 2::int]) \<and>
      at M0 (0, 0, 0) = (if (at (NDArray (1, 1, 2) [5, 0::int]) (0, 0, 0) \<noteq> 0 \<and>
          at (NDArray (1, 1, 2) [1, 2::int]) (0, 0, 0) = 1) \<or>
          at (NDArray (1, 1, 2) [1, 2::int]) (0, 0, 0) = 2 then 1 else 0)"
    by (rule mask_combiner_pointwise) (simp_all add: wf_array_def)
  moreover have "\<exists>M0. mask_combiner (NDArray (1, 1, 2) [1, 1]) (NDArray (1, 1, 2) [5, 0]) = Inr M0 \<and>
      shape M0 = shape (NDArray (1, 1, 2) [1, 1::int]) \<and>
      at M0 (0, 0, 1) = (if (at (NDArray (1, 1, 2) [5, 0::int]) (0, 0, 1) \<noteq> 0 \<and>
          at (NDArray (1, 1, 2) [1, 1::int]) (0, 0, 1) = 1) \<or>
          at (NDArray (1, 1, 2) [1, 1::int]) (0, 0, 1) = 2 then 1 else 0)"
    by (rule mask_combiner_pointwise) (simp_all add: wf_array_def)
  ultimately show ?thesis
    by (auto simp: result_at_def at_def)
qed

text \<open>
  C4: with \<open>F[v] = (P[v] = 4)\<close>, the filled mask holds at a voxel exactly when the voxel
  is in \<open>F\<close> or is a background voxel that no chain of face-adjacent background voxels
  joins to the outer boundary; the step sets the candidate mask to 0 at the enclosed
  voxels (filled and not in \<open>F\<close>) and leaves it as it is elsewhere; and where \<open>F\<close> is
  empty the candidate mask comes back unchanged.
\<close>

theorem enclosure_filler_removes_enclosed:
  assumes "wf_array P" "wf_array M0" "shape M0 = shape P" "in_range (shape P) v"
  shows "\<exists>M1. enclosure_filler P M0 = Inr M1 \<and> shape M1 = shape P \<and>
           (at (binary_fill_holes (map_nd (\<lambda>x. if x = 4 then 1 else 0) P)) v \<longleftrightarrow>
              at P v = 4 \<or>
              (at P v \<noteq> 4 \<and> \<not> reach_from_border (shape P) (\<lambda>u. at P u \<noteq> 4) v)) \<and>
           at M1 v =
             (if at (binary_fill_holes (map_nd (\<lambda>x. if x = 4 then 1 else 0) P)) v \<and> at P v \<noteq> 4
              then 0 else at M0 v) \<and>
           ((\<forall>u. in_range (shape P) u \<longrightarrow> at P u \<noteq> 4) \<longrightarrow> M1 = M0)"
proof -
  let ?filled = "binary_fill_holes (map_nd (\<lambda>x. if x = 4 then 1 else 0) P)"
  let ?bg = "\<lambda>u. at P u \<noteq> 4"
  obtain M1 where m: "enclosure_filler P M0 = Inr M1" "shape M1 = shape P" "wf_array M1"
    and ma: "\<And>v. in_range (shape P) v \<Longrightarrow>
       at M1 v = (if at ?filled v \<and> at P v \<noteq> 4 then 0 else at M0 v)"
    using enclosure_filler_same [OF assms(1-3)] by blast
  have f: "at ?filled u = (\<not> reach_from_border (shape P) ?bg u)" if "in_range (shape P) u" for u
    using assms(1) that by (rule filled_AT_iff)
  have "at ?filled v \<longleftrightarrow> at P v = 4 \<or> (at P v \<noteq> 4 \<and> \<not> reach_from_border (shape P) ?bg v)"
    using f [OF assms(4)] reach_from_border_bg [of "shape P" ?bg v] by blast
  moreover have "M1 = M0" if e: "\<forall>u. in_range (shape P) u \<longrightarrow> at P u \<noteq> 4"
  proof (rule array_eqI)
    show "wf_array M1" "wf_array M0" "shape M1 = shape M0"
      by (simp_all add: m assms)
    fix u assume "in_range (shape M1) u"
    then have u: "in_range (shape P) u" by (simp add: m)
    have "reach_from_border (shape P) ?bg u"
    proof (rule reach_all_background)
      show "at P w \<noteq> 4" if "in_range (shape P) w" for w
        using e that by blast
    qed (rule u)
    then show "at M1 u = at M0 u"
      using ma [OF u] f [OF u] by simp
  qed
  ultimately show ?thesis
    using m ma [OF assms(4)] by blast
qed

theorem enclosure_filler_removes_enclosed_witness:
  "result_at (enclosure_filler shell_brats shell_hdglio) (1, 1, 1) = Some 0 \<and>
   \<not> reach_from_border (3, 3, 3) (\<lambda>u. at shell_brats u \<noteq> 4) (1, 1, 1)"
proof -
  have sh: "shape shell_brats = (3, 3, 3)"
    by (simp add: shell_brats_def array3_def)
  have c: "at shell_brats (1, 1, 1) = 1"
    by (simp add: shell_brats_def array3_def at_def)
  have filled: "at (binary_fill_holes (map_nd (\<lambda>x. if x = 4 then 1 else 0) shell_brats)) (1, 1, 1)"
    unfolding shell_brats_def by code_simp
  have "\<exists>M1. enclosure_filler shell_brats shell_hdglio = Inr M1 \<and> shape M1 = shape shell_brats \<and>
           (at (binary_fill_holes (map_nd (\<lambda>x. if x = 4 then 1 else 0) shell_brats)) (1, 1, 1) \<longleftrightarrow>
              at shell_brats (1, 1, 1) = 4 \<or>
              (at shell_brats (1, 1, 1) \<noteq> 4 \<and>
               \<not> reach_from_border (shape shell_brats) (\<lambda>u. at shell_brats u \<noteq> 4) (1, 1, 1))) \<and>
           at M1 (1, 1, 1) =
             (if at (binary_fill_holes (map_nd (\<lambda>x. if x = 4 then 1 else 0) shell_brats)) (1, 1, 1)
                 \<and> at shell_brats (1, 1, 1) \<noteq> 4
              then 0 else at shell_hdglio (1, 1, 1)) \<and>
           ((\<forall>u. in_range (shape shell_brats) u \<longrightarrow> at shell_brats u \<noteq> 4) \<longrightarrow> M1 = shell_hdglio)"
    by (rule enclosure_filler_removes_enclosed)
      (simp_all add: wf_array_def shell_brats_def shell_hdglio_def array3_def)
  then show ?thesis
    using filled c by (auto simp: result_at_def sh)
qed

text \<open>
  C5: for a mask and a primary volume of one shape and any integer threshold, the
  filtered mask is 1 at a voxel exactly when the voxel is foreground in the input mask
  and its 6-connected component there has more voxels than the threshold, or the primary
  volume is 2 at the voxel; otherwise it is 0. So background is never retained, and edema
  voxels are restored whatever the size of their component.
\<close>

theorem component_size_filter_keeps_large_and_edema:
  assumes "wf_array M1" "wf_array P" "shape M1 = shape P" "in_range (shape P) v"
  shows "\<exists>M2. component_size_filter M1 P T = Inr M2 \<and> shape M2 = shape P \<and>
           at M2 v =
             (if (at M1 v \<noteq> 0 \<and> T < int (card (component (shape P) (\<lambda>u. at M1 u \<noteq> 0) v)))
                 \<or> at P v = 2 then 1 else 0) \<and>
           (at M1 v = 0 \<and> at P v \<noteq> 2 \<longrightarrow> at M2 v = 0) \<and>
           (at P v = 2 \<longrightarrow> at M2 v = 1)"
proof -
  obtain M2 where "component_size_filter M1 P T = Inr M2" "shape M2 = shape P"
    "\<And>v. in_range (shape P) v \<Longrightarrow>
       at M2 v =
         (if (at M1 v \<noteq> 0 \<and> T < int (card (component (shape P) (\<lambda>u. at M1 u \<noteq> 0) v)))
             \<or> at P v = 2 then 1 else 0)"
    using component_size_filter_same [OF assms(1-3)] by blast
  then show ?thesis using assms(4) by simp
qed

theorem component_size_filter_keeps_large_and_edema_witness:
  "result_at (component_size_filter (NDArray (1, 1, 3) [1, 1, 0]) (NDArray (1, 1, 3) [1, 1, 0]) 1)
     (0, 0, 0) = Some 1 \<and>
   1 < int (card (component (1, 1, 3) (\<lambda>u. at (NDArray (1, 1, 3) [1, 1, 0::int]) u \<noteq> 0) (0, 0, 0)))"
proof -
  let ?M = "NDArray (1, 1, 3) [1, 1, 0::int]"
  have r: "result_at (component_size_filter ?M ?M 1) (0, 0, 0) = Some 1"
    by code_simp
  have p: "at ?M (0, 0, 0) = 1"
    by (simp add: at_def)
  have "\<exists>M2. component_size_filter ?M ?M 1 = Inr M2 \<and> shape M2 = shape ?M \<and>
           at M2 (0, 0, 0) =
             (if (at ?M (0, 0, 0) \<noteq> 0 \<and>
                  1 < int (card (component (shape ?M) (\<lambda>u. at ?M u \<noteq> 0) (0, 0, 0))))
                 \<or> at ?M (0, 0, 0) = 2 then 1 else 0) \<and>
           (at ?M (0, 0, 0) = 0 \<and> at ?M (0, 0, 0) \<noteq> 2 \<longrightarrow> at M2 (0, 0, 0) = 0) \<and>
           (at ?M (0, 0, 0) = 2 \<longrightarrow> at M2 (0, 0, 0) = 1)"
    by (rule component_size_filter_keeps_large_and_edema) (simp_all add: wf_array_def)
  then show ?thesis
    using r p by (auto simp: result_at_def split: if_splits)
qed

text \<open>
  C6: for every primary volume and every mask of its shape, whatever the mask holds, the
  merger returns a volume that is 2 where the primary volume is 4 and the value of the
  mask elsewhere; for a mask of zeros and ones that is 1 where the mask is 1 and 0 where it
  is not, so the voxel is 0, 1 or 2. The final volume of the conversion is the merger of the
  primary volume and the filtered mask, and each of its voxels is 0, 1 or 2.
\<close>

theorem label_merger_pointwise:
  assumes "wf_array P" "wf_array M2" "shape M2 = shape P"
    and "wf_array A" "shape A = shape P" "in_range (shape P) v"
  shows "(\<exists>D. label_merger P M2 = Inr D \<and> shape D = shape P \<and>
            at D v = (if at P v = 4 then 2 else at M2 v) \<and>
            (at P v = 4 \<longrightarrow> at D v = 2) \<and>
            (at M2 v = 0 \<or> at M2 v = 1 \<longrightarrow>
               at D v = (if at P v = 4 then 2 else if at M2 v = 1 then 1 else 0) \<and>
               at D v \<in> {0, 1, 2})) \<and>
         (\<exists>NE_out d_out. NE_out_value P A T f = Inr NE_out \<and>
            convert_data_brats2021_to_twolabel P A T f = Inr d_out \<and>
            label_merger P NE_out = Inr d_out \<and> shape d_out = shape P \<and>
            (at NE_out v = 0 \<or> at NE_out v = 1) \<and>
            at d_out v = (if at P v = 4 then 2 else if at NE_out v = 1 then 1 else 0) \<and>
            at d_out v \<in> {0, 1, 2})"
proof -
  obtain D where m: "label_merger P M2 = Inr D" "shape D = shape P" "wf_array D"
    and ma: "\<And>v. in_range (shape P) v \<Longrightarrow> at D v = (if at P v = 4 then 2 else at M2 v)"
    by (rule label_merger_same [OF assms(1-3)]) (rule that; assumption)
  have first: "\<exists>D. label_merger P M2 = Inr D \<and> shape D = shape P \<and>
            at D v = (if at P v = 4 then 2 else at M2 v) \<and>
            (at P v = 4 \<longrightarrow> at D v = 2) \<and>
            (at M2 v = 0 \<or> at M2 v = 1 \<longrightarrow>
               at D v = (if at P v = 4 then 2 else if at M2 v = 1 then 1 else 0) \<and>
               at D v \<in> {0, 1, 2})"
    using m(1,2) ma [OF assms(6)] by auto
  obtain NE NE_out d_out where
    n: "NE_before_filter P A f = Inr NE" "shape NE = shape P" "wf_array NE"
    and o: "NE_out_value P A T f = Inr NE_out" "shape NE_out = shape P"
    and oa: "\<And>v. in_range (shape P) v \<Longrightarrow>
       at NE_out v =
         (if (at NE v \<noteq> 0 \<and> T < int (card (component (shape P) (\<lambda>u. at NE u \<noteq> 0) v)))
             \<or> at P v = 2 then 1 else 0)"
    and d: "convert_data_brats2021_to_twolabel P A T f = Inr d_out" "shape d_out = shape P"
    and da: "\<And>v. in_range (shape P) v \<Longrightarrow> at d_out v = (if at P v = 4 then 2 else at NE_out v)"
    by (rule convert_data_same [OF assms(1,4,5), where at_fill = f and t = T])
      (rule that; assumption)
  have lm: "label_merger P NE_out = Inr d_out"
    using d(1) o(1) by (simp add: convert_data_stages)
  have b: "at NE_out v = 0 \<or> at NE_out v = 1"
    using oa [OF assms(6)] by simp
  have second: "\<exists>NE_out d_out. NE_out_value P A T f = Inr NE_out \<and>
            convert_data_brats2021_to_twolabel P A T f = Inr d_out \<and>
            label_merger P NE_out = Inr d_out \<and> shape d_out = shape P \<and>
            (at NE_out v = 0 \<or> at NE_out v = 1) \<and>
            at d_out v = (if at P v = 4 then 2 else if at NE_out v = 1 then 1 else 0) \<and>
            at d_out v \<in> {0, 1, 2}"
    using o(1) d lm b da [OF assms(6)] by auto
  show ?thesis
    using first second by (rule conjI)
qed

theorem label_merger_pointwise_witness:
  "result_at (label_merger (NDArray (1, 1, 2) [2, 4]) (NDArray (1, 1, 2) [1, 1])) (0, 0, 1)
     = Some 2 \<and>
   result_at (label_merger (NDArray (1, 1, 2) [2, 0]) (NDArray (1, 1, 2) [1, 1])) (0, 0, 1)
     = Some 1 \<and>
   result_at (convert_data_brats2021_to_twolabel (NDArray (1, 1, 2) [2, 4]) (NDArray (1, 1, 2) [0, 0])
     50 True) (0, 0, 1) = Some 2"
proof -
  let ?P = "NDArray (1, 1, 2) [2, 4::int]" and ?Q = "NDArray (1, 1, 2) [2, 0::int]"
  let ?M = "NDArray (1, 1, 2) [1, 1::int]" and ?A = "NDArray (1, 1, 2) [0, 0::int]"
  have p: "at ?P (0, 0, 1) = 4" "at ?Q (0, 0, 1) = 0" "at ?M (0, 0, 1) = 1"
    by (simp_all add: at_def)
  have w: "wf_array ?P" "wf_array ?Q" "wf_array ?M" "wf_array ?A"
    by (simp_all add: wf_array_def)
  have s: "shape ?M = shape ?P" "shape ?A = shape ?P" "shape ?M = shape ?Q" "shape ?A = shape ?Q"
    by simp_all
  have r: "in_range (shape ?P) (0, 0, 1)" "in_range (shape ?Q) (0, 0, 1)"
    by simp_all
  note a = label_merger_pointwise [OF w(1) w(3) s(1) w(4) s(2) r(1), of 50 True]
  note b = label_merger_pointwise [OF w(2) w(3) s(3) w(4) s(4) r(2), of 50 True]
  have "result_at (label_merger ?P ?M) (0, 0, 1) = Some 2"
    using a p by (auto simp: result_at_def)
  moreover have "result_at (label_merger ?Q ?M) (0, 0, 1) = Some 1"
    using b p by (auto simp: result_at_def)
  moreover have "result_at (convert_data_brats2021_to_twolabel ?P ?A 50 True) (0, 0, 1) = Some 2"
    using a p by (auto simp: result_at_def)
  ultimately show ?thesis by simp
qed

text \<open>
  C7: where the primary volume is 2 the filtered mask is 1, and where the filtered mask is
  1 the final volume is 1 unless the primary volume is 4 there.
\<close>

theorem edema_preserved:
  assumes "wf_array P" "wf_array A" "shape A = shape P" "in_range (shape P) v"
  shows "\<exists>M2 D. NE_out_value P A T f = Inr M2 \<and>
           convert_data_brats2021_to_twolabel P A T f = Inr D \<and>
           (at P v = 2 \<longrightarrow> at M2 v = 1) \<and>
           (at M2 v = 1 \<longrightarrow> at D v = 1 \<or> at P v = 4)"
proof -
  obtain NE NE_out d_out where
    n: "NE_before_filter P A f = Inr NE" "shape NE = shape P" "wf_array NE"
    and o: "NE_out_value P A T f = Inr NE_out" "shape NE_out = shape P"
    and oa: "\<And>v. in_range (shape P) v \<Longrightarrow>
       at NE_out v =
         (if (at NE v \<noteq> 0 \<and> T < int (card (component (shape P) (\<lambda>u. at NE u \<noteq> 0) v)))
             \<or> at P v = 2 then 1 else 0)"
    and d: "convert_data_brats2021_to_twolabel P A T f = Inr d_out" "shape d_out = shape P"
    and da: "\<And>v. in_range (shape P) v \<Longrightarrow> at d_out v = (if at P v = 4 then 2 else at NE_out v)"
    by (rule convert_data_same [OF assms(1-3), where at_fill = f and t = T]) (rule that; assumption)
  have "at P v = 2 \<longrightarrow> at NE_out v = 1"
    using oa [OF assms(4)] by simp
  moreover have "at NE_out v = 1 \<longrightarrow> at d_out v = 1 \<or> at P v = 4"
    using da [OF assms(4)] by simp
  ultimately show ?thesis
    using o(1) d(1) by blast
qed

theorem edema_preserved_witness:
  "result_at (NE_out_value (NDArray (1, 1, 2) [2, 4]) (NDArray (1, 1, 2) [0, 0]) 50 True)
     (0, 0, 0) = Some 1 \<and>
   result_at (convert_data_brats2021_to_twolabel (NDArray (1, 1, 2) [2, 4]) (NDArray (1, 1, 2) [0, 0])
     50 True) (0, 0, 0) = Some 1"
proof -
  let ?P = "NDArray (1, 1, 2) [2, 4::int]" and ?A = "NDArray (1, 1, 2) [0, 0::int]"
  have p: "at ?P (0, 0, 0) = 2"
    by (simp add: at_def)
  have "\<exists>M2 D. NE_out_value ?P ?A 50 True = Inr M2 \<and>
           convert_data_brats2021_to_twolabel ?P ?A 50 True = Inr D \<and>
           (at ?P (0, 0, 0) = 2 \<longrightarrow> at M2 (0, 0, 0) = 1) \<and>
           (at M2 (0, 0, 0) = 1 \<longrightarrow> at D (0, 0, 0) = 1 \<or> at ?P (0, 0, 0) = 4)"
    by (rule edema_preserved) (simp_all add: wf_array_def)
  then show ?thesis
    using p by (auto simp: result_at_def)
qed

text \<open>
  C8: for fixed volumes and a fixed enclosure setting, every voxel that is foreground in
  the filtered mask under the larger of two thresholds is foreground under the smaller
  one, and a voxel where the primary volume is 2 is foreground under both.
\<close>

theorem threshold_monotone:
  assumes "wf_array P" "wf_array A" "shape A = shape P" "in_range (shape P) v" "T1 < T2"
  shows "\<exists>M2' M2''. NE_out_value P A T1 f = Inr M2' \<and> NE_out_value P A T2 f = Inr M2'' \<and>
           (at M2'' v \<noteq> 0 \<longrightarrow> at M2' v \<noteq> 0) \<and>
           (at P v = 2 \<longrightarrow> at M2' v \<noteq> 0 \<and> at M2'' v \<noteq> 0)"
proof -
  obtain NE M2' d1 where
    n1: "NE_before_filter P A f = Inr NE" "shape NE = shape P" "wf_array NE"
    and o1: "NE_out_value P A T1 f = Inr M2'" "shape M2' = shape P"
    and a1: "\<And>v. in_range (shape P) v \<Longrightarrow>
       at M2' v =
         (if (at NE v \<noteq> 0 \<and> T1 < int (card (component (shape P) (\<lambda>u. at NE u \<noteq> 0) v)))
             \<or> at P v = 2 then 1 else 0)"
    and d1: "convert_data_brats2021_to_twolabel P A T1 f = Inr d1" "shape d1 = shape P"
      "\<And>v. in_range (shape P) v \<Longrightarrow> at d1 v = (if at P v = 4 then 2 else at M2' v)"
    by (rule convert_data_same [OF assms(1-3), where at_fill = f and t = T1]) (rule that; assumption)
  obtain NE' M2'' d2 where
    n2: "NE_before_filter P A f = Inr NE'" "shape NE' = shape P" "wf_array NE'"
    and o2: "NE_out_value P A T2 f = Inr M2''" "shape M2'' = shape P"
    and a2: "\<And>v. in_range (shape P) v \<Longrightarrow>
       at M2'' v =
         (if (at NE' v \<noteq> 0 \<and> T2 < int (card (component (shape P) (\<lambda>u. at NE' u \<noteq> 0) v)))
             \<or> at P v = 2 then 1 else 0)"
    and d2: "convert_data_brats2021_to_twolabel P A T2 f = Inr d2" "shape d2 = shape P"
      "\<And>v. in_range (shape P) v \<Longrightarrow> at d2 v = (if at P v = 4 then 2 else at M2'' v)"
    by (rule convert_data_same [OF assms(1-3), where at_fill = f and t = T2]) (rule that; assumption)
  have e: "NE' = NE" using n1(1) n2(1) by simp
  have "at M2'' v \<noteq> 0 \<longrightarrow> at M2' v \<noteq> 0"
    using a1 [OF assms(4)] a2 [OF assms(4)] assms(5) unfolding e by (simp split: if_splits)
  moreover have "at P v = 2 \<longrightarrow> at M2' v \<noteq> 0 \<and> at M2'' v \<noteq> 0"
    using a1 [OF assms(4)] a2 [OF assms(4)] by simp
  ultimately show ?thesis
    using o1(1) o2(1) by blast
qed

theorem threshold_monotone_witness:
  "result_at (NE_out_value (NDArray (1, 1, 3) [1, 1, 0]) (NDArray (1, 1, 3) [1, 1, 1]) 0 False)
     (0, 0, 0) \<noteq> Some 0 \<and>
   result_at (NE_out_value (NDArray (1, 1, 3) [1, 1, 0]) (NDArray (1, 1, 3) [1, 1, 1]) 1 False)
     (0, 0, 0) = Some 1"
proof -
  let ?P = "NDArray (1, 1, 3) [1, 1, 0::int]" and ?A = "NDArray (1, 1, 3) [1, 1, 1::int]"
  have r: "result_at (NE_out_value ?P ?A 1 False) (0, 0, 0) = Some 1"
    by code_simp
  have "\<exists>M2' M2''. NE_out_value ?P ?A 0 False = Inr M2' \<and> NE_out_value ?P ?A 1 False = Inr M2'' \<and>
           (at M2'' (0, 0, 0) \<noteq> 0 \<longrightarrow> at M2' (0, 0, 0) \<noteq> 0) \<and>
           (at ?P (0, 0, 0) = 2 \<longrightarrow> at M2' (0, 0, 0) \<noteq> 0 \<and> at M2'' (0, 0, 0) \<noteq> 0)"
    by (rule threshold_monotone) (simp_all add: wf_array_def)
  then show ?thesis
    using r by (auto simp: result_at_def)
qed

text \<open>
  C9: the text given to \<open>--at_fill\<close> is read as true whenever it is not empty, the texts
  \<open>false\<close> and \<open>False\<close> included; only the empty text gives false, and the value
  reaches the file-level conversion as parsed.
\<close>

theorem parse_at_fill_nonempty_true:
  "parse_at_fill (Some s) = (s \<noteq> '''') \<and>
   parse_at_fill (Some ''false'') \<and> parse_at_fill (Some ''False'') \<and>
   \<not> parse_at_fill (Some '''') \<and>
   main b h t (Some s) =
     convert_file_brats2021_to_twolabel b h (parse_cluster_size_threshold t) (s \<noteq> '''')"
  by (simp add: parse_at_fill_def py_bool_def main_def)

text \<open>
  C10: the size filter sets a voxel to foreground only where its input mask is
  foreground or the primary volume is 2.
\<close>

theorem component_size_filter_shrinks:
  assumes "wf_array M1" "wf_array P" "shape M1 = shape P" "in_range (shape P) v"
  shows "\<exists>M2. component_size_filter M1 P T = Inr M2 \<and>
           (at M2 v \<noteq> 0 \<longrightarrow> at M1 v \<noteq> 0 \<or> at P v = 2)"
proof -
  obtain M2 where "component_size_filter M1 P T = Inr M2"
    "\<And>v. in_range (shape P) v \<Longrightarrow>
       at M2 v =
         (if (at M1 v \<noteq> 0 \<and> T < int (card (component (shape P) (\<lambda>u. at M1 u \<noteq> 0) v)))
             \<or> at P v = 2 then 1 else 0)"
    using component_size_filter_same [OF assms(1-3)] by blast
  then show ?thesis using assms(4) by (auto split: if_splits)
qed

theorem component_size_filter_shrinks_witness:
  "result_at (component_size_filter (NDArray (1, 1, 3) [0, 1, 0]) (NDArray (1, 1, 3) [0, 1, 2]) 0)
     (0, 0, 0) = Some 0"
proof -
  let ?M = "NDArray (1, 1, 3) [0, 1, 0::int]" and ?P = "NDArray (1, 1, 3) [0, 1, 2::int]"
  have p: "at ?M (0, 0, 0) = 0" "at ?P (0, 0, 0) = 0"
    by (simp_all add: at_def)
  have "\<exists>M2. component_size_filter ?M ?P 0 = Inr M2 \<and>
           (at M2 (0, 0, 0) \<noteq> 0 \<longrightarrow> at ?M (0, 0, 0) \<noteq> 0 \<or> at ?P (0, 0, 0) = 2)"
    by (rule component_size_filter_shrinks) (simp_all add: wf_array_def)
  then show ?thesis
    using p by (auto simp: result_at_def)
qed

end
